theory Spec2Isabelle
  imports Main "HOL-Library.Word"
begin

unbundle bit_operations_syntax

section \<open>Constants and on-disk data\<close>

text \<open>
  The file system of \<^verbatim>\<open>fs.c\<close> (blocks, inodes, directories, path names) and the two
  system calls \<^verbatim>\<open>sys_link\<close> and \<^verbatim>\<open>create\<close> of \<^verbatim>\<open>sysfile.c\<close>, as functions over an
  explicit disk and an explicit inode cache. The machine types are \<^verbatim>\<open>uchar\<close> (8 bit),
  \<^verbatim>\<open>short\<close> and \<^verbatim>\<open>ushort\<close> (16 bit), \<^verbatim>\<open>uint\<close> and \<^verbatim>\<open>int\<close> (32 bit) and \<^verbatim>\<open>uint64\<close>.
\<close>

type_synonym byte = "8 word"
type_synonym ushort = "16 word"
type_synonym short = "16 word"
type_synonym uint = "32 word"
type_synonym uint64 = "64 word"

text \<open>
  Modelled from the spec: \<^verbatim>\<open>fs.h\<close> and \<^verbatim>\<open>param.h\<close> are not among the sources, so the
  layout constants follow the specification: a block has \<open>BSIZE = 1024\<close> bytes, an
  indirect block holds \<open>NINDIRECT = BSIZE / 4\<close> block numbers, a directory name has
  \<open>DIRSIZ = 14\<close> bytes, and \<open>MAXFILE = NDIRECT + NINDIRECT + NINDIRECT\<^sup>2\<close>. The
  specification gives the inode \<open>NDIRECT + 2\<close> address cells without fixing \<open>NDIRECT\<close>;
  it is 11 here, the value of the upstream layout with one doubly-indirect block; the
  proofs use the value only for the bound \<open>MAXFILE * BSIZE < 2\<^sup>3\<^sup>1\<close> and to run the
  functions on examples.
\<close>

definition BSIZE :: nat where "BSIZE = 1024"
definition NDIRECT :: nat where "NDIRECT = 11"
definition NINDIRECT :: nat where "NINDIRECT = BSIZE div 4"
definition MAXFILE :: nat where "MAXFILE = NDIRECT + NINDIRECT + NINDIRECT * NINDIRECT"
definition BPB :: nat where "BPB = BSIZE * 8"
definition DIRSIZ :: nat where "DIRSIZ = 14"

text \<open>
  A block is the array \<^verbatim>\<open>uchar data[BSIZE]\<close> of a buffer, a function from the index to
  the byte. The model reads and writes indices below \<open>BSIZE\<close> only; where the source
  can index past the array, the model returns \<open>Out_of_bounds\<close>.
\<close>

type_synonym block = "nat \<Rightarrow> byte"

record superblock =
  sb_size :: uint
  sb_ninodes :: uint
  sb_inodestart :: uint
  sb_bmapstart :: uint

text \<open>\<^verbatim>\<open>struct dinode\<close>: the fields that \<^verbatim>\<open>iupdate\<close> writes and \<^verbatim>\<open>ilock\<close> reads.\<close>

record dinode =
  d_type :: short
  d_major :: short
  d_minor :: short
  d_nlink :: short
  d_size :: uint
  d_addrs :: "nat \<Rightarrow> uint"

text \<open>
  \<^verbatim>\<open>struct inode\<close>, the in-memory copy: \<^verbatim>\<open>ref\<close> and \<^verbatim>\<open>valid\<close> are C \<^verbatim>\<open>int\<close>s,
  \<open>i_locked\<close> is the state of the inode's sleep-lock, held or free.
\<close>

record inode =
  i_dev :: uint
  i_inum :: uint
  i_ref :: "32 word"
  i_locked :: bool
  i_valid :: "32 word"
  i_type :: short
  i_major :: short
  i_minor :: short
  i_nlink :: short
  i_size :: uint
  i_addrs :: "nat \<Rightarrow> uint"

text \<open>
  The disk as the block cache shows it: the superblock read by \<^verbatim>\<open>fsinit\<close> and the data
  of every block by number; the inodes and the bitmap are bytes of these blocks. The log
  is an external collaborator: \<^verbatim>\<open>log_write\<close> makes the change to a buffer part of the
  transaction, which in a sequential run is the change itself.
\<close>

record disk =
  sb :: superblock
  blocks :: "nat \<Rightarrow> block"

text \<open>
  A call ends by returning, by \<^verbatim>\<open>panic\<close> (which never returns), by sleeping for ever on a
  buffer lock that the caller itself holds, by indexing past a buffer, or by overflowing a
  signed \<^verbatim>\<open>int\<close>.
\<close>

datatype error = Panic string | Deadlock | Out_of_bounds | Int_overflow

section \<open>Blocks\<close>

text \<open>\<^verbatim>\<open>BBLOCK(b, sb) = b/BPB + sb.bmapstart\<close>, computed in \<^verbatim>\<open>uint\<close>.\<close>

definition BBLOCK :: "nat \<Rightarrow> superblock \<Rightarrow> nat" where
  "BBLOCK b s = (b div BPB + unat (sb_bmapstart s)) mod 2 ^ 32"

text \<open>The mask \<^verbatim>\<open>m = 1 << (bi % 8)\<close> and the test \<^verbatim>\<open>(bp->data[bi/8] & m) == 0\<close>.\<close>

definition bitmask :: "nat \<Rightarrow> byte" where
  "bitmask bi = push_bit (bi mod 8) 1"

definition bit_free :: "block \<Rightarrow> nat \<Rightarrow> bool" where
  "bit_free blk bi \<longleftrightarrow> blk (bi div 8) AND bitmask bi = 0"

definition zero_block :: block where
  "zero_block = (\<lambda>_. 0)"

text \<open>
  \<^verbatim>\<open>bread\<close> returns the buffer locked. The block cache is an external collaborator;
  modelled from the spec, a buffer's sleep-lock is held while its contents are examined,
  so \<^verbatim>\<open>bread\<close> of a block in \<open>held\<close>, the blocks whose buffers the caller has not
  released yet, sleeps for ever.
\<close>

definition bzero :: "nat list \<Rightarrow> disk \<Rightarrow> nat \<Rightarrow> error + disk" where
  "bzero held d bno =
     (if bno \<in> set held then Inl Deadlock
      else Inr (d\<lparr>blocks := (blocks d)(bno := zero_block)\<rparr>))"

text \<open>
  The inner loop of \<^verbatim>\<open>balloc\<close>: the first \<open>bi' \<ge> bi\<close> with \<open>bi' < BPB\<close>,
  \<open>b + bi' < sb.size\<close> and a clear bit in the bitmap block.
\<close>

function balloc_scan :: "block \<Rightarrow> nat \<Rightarrow> nat \<Rightarrow> nat \<Rightarrow> nat option" where
  "balloc_scan blk sz b bi =
     (if bi < BPB \<and> b + bi < sz then
        (if bit_free blk bi then Some bi else balloc_scan blk sz b (bi + 1))
      else None)"
  by pat_completeness auto
termination
  by (relation "measure (\<lambda>(blk, sz, b, bi). BPB - bi)") auto

declare balloc_scan.simps [simp del]

text \<open>
  The outer loop of \<^verbatim>\<open>balloc\<close>, from bitmap block \<open>b\<close> on. \<^verbatim>\<open>b\<close> is an \<^verbatim>\<open>int\<close>:
  \<^verbatim>\<open>b += BPB\<close> past \<open>2\<^sup>3\<^sup>1 - 1\<close> is a signed overflow.
\<close>

function balloc_from :: "nat list \<Rightarrow> disk \<Rightarrow> nat \<Rightarrow> error + (uint \<times> disk)" where
  "balloc_from held d b =
     (if b < unat (sb_size (sb d)) then
        (if BBLOCK b (sb d) \<in> set held then Inl Deadlock
         else
           (case balloc_scan (blocks d (BBLOCK b (sb d))) (unat (sb_size (sb d))) b 0 of
              Some bi \<Rightarrow>
                (let bb = BBLOCK b (sb d);
                     blk = blocks d bb;
                     d1 = d\<lparr>blocks := (blocks d)
                            (bb := blk(bi div 8 := blk (bi div 8) OR bitmask bi))\<rparr>
                 in case bzero held d1 (b + bi) of
                      Inl e \<Rightarrow> Inl e
                    | Inr d2 \<Rightarrow> Inr (of_nat (b + bi), d2))
            | None \<Rightarrow>
                (if b + BPB \<ge> 2 ^ 31 then Inl Int_overflow
                 else balloc_from held d (b + BPB))))
      else Inl (Panic ''balloc: out of blocks''))"
  by pat_completeness auto
termination
  by (relation "measure (\<lambda>(held, d, b). unat (sb_size (sb d)) - b)") (auto simp: BPB_def BSIZE_def)

declare balloc_from.simps [simp del]

definition balloc :: "nat list \<Rightarrow> disk \<Rightarrow> error + (uint \<times> disk)" where
  "balloc held d = balloc_from held d 0"

text \<open>
  \<^verbatim>\<open>bfree\<close>: \<^verbatim>\<open>bi = b % BPB\<close>, the bit must be set, and is cleared with
  \<^verbatim>\<open>bp->data[bi/8] &= ~m\<close>.
\<close>

definition bfree :: "nat list \<Rightarrow> disk \<Rightarrow> uint \<Rightarrow> error + disk" where
  "bfree held d b =
     (let bb = BBLOCK (unat b) (sb d);
          blk = blocks d bb;
          bi = unat b mod BPB
      in if bb \<in> set held then Inl Deadlock
         else if bit_free blk bi then Inl (Panic ''freeing free block'')
         else Inr (d\<lparr>blocks := (blocks d)
                      (bb := blk(bi div 8 := blk (bi div 8) AND NOT (bitmask bi)))\<rparr>))"

section \<open>Inode content\<close>

text \<open>
  An indirect block seen as \<^verbatim>\<open>uint a[NINDIRECT]\<close> through \<^verbatim>\<open>(uint*)bp->data\<close>:
  cell \<open>i\<close> is the four bytes from \<open>4 * i\<close>, least significant first.
\<close>

definition rd32 :: "block \<Rightarrow> nat \<Rightarrow> uint" where
  "rd32 blk i =
     ucast (blk (4 * i)) OR push_bit 8 (ucast (blk (4 * i + 1)))
       OR push_bit 16 (ucast (blk (4 * i + 2))) OR push_bit 24 (ucast (blk (4 * i + 3)))"

definition wr32 :: "block \<Rightarrow> nat \<Rightarrow> uint \<Rightarrow> block" where
  "wr32 blk i v =
     blk(4 * i := ucast v, 4 * i + 1 := ucast (drop_bit 8 v),
         4 * i + 2 := ucast (drop_bit 16 v), 4 * i + 3 := ucast (drop_bit 24 v))"

text \<open>
  The step that \<^verbatim>\<open>bmap\<close> repeats at each level, on cell \<open>i\<close> of the block \<open>blk\<close>
  whose buffer is held: \<^verbatim>\<open>if((addr = a[i]) == 0){ a[i] = addr = balloc(dev); log_write(bp); }\<close>.
\<close>

definition bmap_cell :: "disk \<Rightarrow> nat \<Rightarrow> nat \<Rightarrow> error + (uint \<times> disk)" where
  "bmap_cell d blk i =
     (if rd32 (blocks d blk) i = 0 then
        (case balloc [blk] d of
           Inl e \<Rightarrow> Inl e
         | Inr (addr, d1) \<Rightarrow>
             Inr (addr, d1\<lparr>blocks := (blocks d1)(blk := wr32 (blocks d1 blk) i addr)\<rparr>))
      else Inr (rd32 (blocks d blk) i, d))"

text \<open>
  The same step on a cell of \<^verbatim>\<open>ip->addrs\<close>, with no buffer held:
  \<^verbatim>\<open>if((addr = ip->addrs[i]) == 0) ip->addrs[i] = addr = balloc(ip->dev);\<close>.
\<close>

definition bmap_addr :: "disk \<Rightarrow> inode \<Rightarrow> nat \<Rightarrow> error + (uint \<times> disk \<times> inode)" where
  "bmap_addr d ip i =
     (if i_addrs ip i = 0 then
        (case balloc [] d of
           Inl e \<Rightarrow> Inl e
         | Inr (addr, d1) \<Rightarrow> Inr (addr, d1, ip\<lparr>i_addrs := (i_addrs ip)(i := addr)\<rparr>))
      else Inr (i_addrs ip i, d, ip))"

text \<open>
  \<^verbatim>\<open>bmap\<close>. After \<^verbatim>\<open>bn -= NDIRECT\<close> the test \<^verbatim>\<open>bn < NINDIRECT\<close> has an
  \<^verbatim>\<open>else\<close> that takes every other \<open>bn\<close> as doubly indirect; there
  \<^verbatim>\<open>a[singlyIndirect]\<close> with \<^verbatim>\<open>singlyIndirect = bn/NINDIRECT\<close> is read from the
  \<open>NINDIRECT\<close> cells of the buffer whatever the index. Both branches return, so the
  \<^verbatim>\<open>panic("bmap: out of range")\<close> after them is never reached.
\<close>

definition bmap :: "disk \<Rightarrow> inode \<Rightarrow> uint \<Rightarrow> error + (uint \<times> disk \<times> inode)" where
  "bmap d ip bn =
     (if unat bn < NDIRECT then bmap_addr d ip (unat bn)
      else
        (let bn1 = unat bn - NDIRECT in
         if bn1 < NINDIRECT then
           (case bmap_addr d ip NDIRECT of
              Inl e \<Rightarrow> Inl e
            | Inr (addr, d1, ip1) \<Rightarrow>
                (case bmap_cell d1 (unat addr) bn1 of
                   Inl e \<Rightarrow> Inl e
                 | Inr (addr2, d2) \<Rightarrow> Inr (addr2, d2, ip1)))
         else
           (let bn2 = bn1 - NINDIRECT;
                singlyIndirect = bn2 div NINDIRECT;
                i = bn2 mod NINDIRECT
            in case bmap_addr d ip (NDIRECT + 1) of
                 Inl e \<Rightarrow> Inl e
               | Inr (dublyIndirect, d1, ip1) \<Rightarrow>
                   (if singlyIndirect \<ge> NINDIRECT then Inl Out_of_bounds
                    else
                      (case bmap_cell d1 (unat dublyIndirect) singlyIndirect of
                         Inl e \<Rightarrow> Inl e
                       | Inr (addr, d2) \<Rightarrow>
                           (case bmap_cell d2 (unat (rd32 (blocks d2 (unat dublyIndirect)) singlyIndirect)) i of
                              Inl e \<Rightarrow> Inl e
                            | Inr (addr3, d3) \<Rightarrow> Inr (addr3, d3, ip1)))))))"

text \<open>
  Modelled from the spec: \<^verbatim>\<open>fs.h\<close> is not among the sources. The on-disk inode is the
  record of the specification with its fields in the order given, the four \<^verbatim>\<open>short\<close>s
  \<^verbatim>\<open>type\<close>, \<^verbatim>\<open>major\<close>, \<^verbatim>\<open>minor\<close> and \<^verbatim>\<open>nlink\<close>, the \<^verbatim>\<open>uint\<close> \<^verbatim>\<open>size\<close> and the
  \<open>NDIRECT + 2\<close> \<^verbatim>\<open>uint\<close>s of \<^verbatim>\<open>addrs\<close>, least significant byte first and without
  padding. Inode blocks hold \<open>IPB = BSIZE / sizeof(dinode)\<close> records, and
  \<^verbatim>\<open>IBLOCK(i, sb) = i/IPB + sb.inodestart\<close>, computed in \<^verbatim>\<open>uint\<close>.
\<close>

definition DINODE_SIZE :: nat where "DINODE_SIZE = 4 * 2 + 4 + 4 * (NDIRECT + 2)"
definition IPB :: nat where "IPB = BSIZE div DINODE_SIZE"

definition IBLOCK :: "nat \<Rightarrow> superblock \<Rightarrow> nat" where
  "IBLOCK i s = (i div IPB + unat (sb_inodestart s)) mod 2 ^ 32"

text \<open>A \<^verbatim>\<open>short\<close> at byte \<open>pos\<close> of a block.\<close>

definition rd16 :: "block \<Rightarrow> nat \<Rightarrow> short" where
  "rd16 blk pos = ucast (blk pos) OR push_bit 8 (ucast (blk (pos + 1)))"

definition wr16 :: "block \<Rightarrow> nat \<Rightarrow> short \<Rightarrow> block" where
  "wr16 blk pos v = blk(pos := ucast v, pos + 1 := ucast (drop_bit 8 v))"

text \<open>
  \<^verbatim>\<open>memmove\<close> of \<open>n\<close> \<^verbatim>\<open>uint\<close>s of the array \<open>a\<close> to the cells of a block from
  cell \<open>c\<close> on, and \<^verbatim>\<open>memset(p, 0, n)\<close> on the bytes of a block from \<open>pos\<close> on.
\<close>

fun wr32s :: "block \<Rightarrow> nat \<Rightarrow> (nat \<Rightarrow> uint) \<Rightarrow> nat \<Rightarrow> block" where
  "wr32s blk c a 0 = blk"
| "wr32s blk c a (Suc n) = wr32 (wr32s blk c a n) (c + n) (a n)"


text \<open>
  The \<^verbatim>\<open>struct dinode\<close> that \<^verbatim>\<open>(struct dinode*)bp->data + k\<close> points to in a block:
  the record starts at byte \<open>k * sizeof(dinode)\<close>, a multiple of 4, so \<^verbatim>\<open>size\<close> and
  \<^verbatim>\<open>addrs\<close> are cells 2 and 3 onwards of the \<^verbatim>\<open>uint\<close>s from there.
\<close>

definition get_dinode :: "block \<Rightarrow> nat \<Rightarrow> dinode" where
  "get_dinode blk k =
     (let p = k * DINODE_SIZE in
      \<lparr>d_type = rd16 blk p, d_major = rd16 blk (p + 2), d_minor = rd16 blk (p + 4),
       d_nlink = rd16 blk (p + 6), d_size = rd32 blk (p div 4 + 2),
       d_addrs = (\<lambda>j. if j < NDIRECT + 2 then rd32 blk (p div 4 + 3 + j) else 0)\<rparr>)"

text \<open>The on-disk inode \<open>inum\<close>: record \<^verbatim>\<open>inum%IPB\<close> of block \<^verbatim>\<open>IBLOCK(inum, sb)\<close>.\<close>

definition dinodes :: "disk \<Rightarrow> nat \<Rightarrow> dinode" where
  "dinodes d inum = get_dinode (blocks d (IBLOCK inum (sb d))) (inum mod IPB)"

text \<open>
  \<^verbatim>\<open>iupdate\<close> reads block \<^verbatim>\<open>IBLOCK(ip->inum, sb)\<close>, writes the fields of the in-memory
  inode into record \<^verbatim>\<open>ip->inum%IPB\<close> of it, the \<^verbatim>\<open>memmove\<close> copying the
  \<open>NDIRECT + 2\<close> cells of \<^verbatim>\<open>addrs\<close>, and logs the block.
\<close>

definition iupdate :: "disk \<Rightarrow> inode \<Rightarrow> disk" where
  "iupdate d ip =
     (let b = IBLOCK (unat (i_inum ip)) (sb d);
          p = (unat (i_inum ip) mod IPB) * DINODE_SIZE;
          blk1 = wr16 (blocks d b) p (i_type ip);
          blk2 = wr16 blk1 (p + 2) (i_major ip);
          blk3 = wr16 blk2 (p + 4) (i_minor ip);
          blk4 = wr16 blk3 (p + 6) (i_nlink ip);
          blk5 = wr32 blk4 (p div 4 + 2) (i_size ip);
          blk6 = wr32s blk5 (p div 4 + 3) (i_addrs ip) (NDIRECT + 2)
      in d\<lparr>blocks := (blocks d)(b := blk6)\<rparr>)"

text \<open>The \<open>m\<close> bytes of a block from position \<open>pos\<close>, and their replacement.\<close>

definition block_bytes :: "block \<Rightarrow> nat \<Rightarrow> nat \<Rightarrow> byte list" where
  "block_bytes blk pos m = map blk [pos ..< pos + m]"

fun block_write :: "block \<Rightarrow> nat \<Rightarrow> byte list \<Rightarrow> block" where
  "block_write blk pos [] = blk"
| "block_write blk pos (x # xs) = block_write (blk(pos := x)) (pos + 1) xs"

text \<open>
  \<^verbatim>\<open>either_copyout\<close> and \<^verbatim>\<open>either_copyin\<close> are external collaborators, taken as
  parameters. \<open>cpout mem user_dst dst bytes\<close> copies \<open>bytes\<close> to address \<open>dst\<close> of the
  memory \<open>mem\<close> and returns whether it succeeded (the source tests for \<open>-1\<close>) with the
  memory after it. \<open>cpin mem user_src src len\<close> returns whether it succeeded and the
  bytes it has put at the start of the destination, all \<open>len\<close> of them when it
  succeeds.
\<close>

type_synonym 'm copyout = "'m \<Rightarrow> int \<Rightarrow> uint64 \<Rightarrow> byte list \<Rightarrow> bool \<times> 'm"
type_synonym 'm copyin = "'m \<Rightarrow> int \<Rightarrow> uint64 \<Rightarrow> nat \<Rightarrow> bool \<times> byte list"

text \<open>
  The loop of \<^verbatim>\<open>readi\<close>, with its variables \<open>tot\<close>, \<open>off\<close> and \<open>dst\<close>; it returns
  the final \<open>tot\<close> too. \<open>off + n\<close> does not wrap where \<^verbatim>\<open>readi\<close> enters the loop,
  so \<open>tot\<close>, \<open>off\<close> and \<open>m\<close> are natural numbers.
\<close>

function readi_loop ::
  "'m copyout \<Rightarrow> disk \<Rightarrow> inode \<Rightarrow> 'm \<Rightarrow> int \<Rightarrow> uint64 \<Rightarrow> nat \<Rightarrow> nat \<Rightarrow> nat
     \<Rightarrow> error + (disk \<times> inode \<times> 'm \<times> nat)" where
  "readi_loop cpout d ip mem user_dst dst off n tot =
     (if tot < n then
        (case bmap d ip (of_nat (off div BSIZE)) of
           Inl e \<Rightarrow> Inl e
         | Inr (addr, d1, ip1) \<Rightarrow>
             (let m = min (n - tot) (BSIZE - off mod BSIZE) in
              case cpout mem user_dst dst (block_bytes (blocks d1 (unat addr)) (off mod BSIZE) m) of
                (False, mem1) \<Rightarrow> Inr (d1, ip1, mem1, tot)
              | (True, mem1) \<Rightarrow>
                  readi_loop cpout d1 ip1 mem1 user_dst (dst + of_nat m) (off + m) n (tot + m)))
      else Inr (d, ip, mem, tot))"
  by pat_completeness auto
termination
  by (relation "measure (\<lambda>(cpout, d, ip, mem, user_dst, dst, off, n, tot). n - tot)")
     (auto simp: BSIZE_def)

declare readi_loop.simps [simp del]

text \<open>\<^verbatim>\<open>readi\<close>: the value returned is the \<^verbatim>\<open>uint n\<close> as an \<^verbatim>\<open>int\<close>.\<close>

definition readi ::
  "'m copyout \<Rightarrow> disk \<Rightarrow> inode \<Rightarrow> 'm \<Rightarrow> int \<Rightarrow> uint64 \<Rightarrow> uint \<Rightarrow> uint
     \<Rightarrow> error + (int \<times> disk \<times> inode \<times> 'm)" where
  "readi cpout d ip mem user_dst dst off n =
     (if off > i_size ip \<or> off + n < off then Inr (- 1, d, ip, mem)
      else
        (let n1 = (if off + n > i_size ip then i_size ip - off else n) in
         case readi_loop cpout d ip mem user_dst dst (unat off) (unat n1) 0 of
           Inl e \<Rightarrow> Inl e
         | Inr (d1, ip1, mem1, tot) \<Rightarrow> Inr (sint n1, d1, ip1, mem1)))"

text \<open>The loop of \<^verbatim>\<open>writei\<close>; it returns the final \<open>off\<close>, which \<^verbatim>\<open>writei\<close> tests.\<close>

function writei_loop ::
  "'m copyin \<Rightarrow> disk \<Rightarrow> inode \<Rightarrow> 'm \<Rightarrow> int \<Rightarrow> uint64 \<Rightarrow> nat \<Rightarrow> nat \<Rightarrow> nat
     \<Rightarrow> error + (disk \<times> inode \<times> nat)" where
  "writei_loop cpin d ip mem user_src src off n tot =
     (if tot < n then
        (case bmap d ip (of_nat (off div BSIZE)) of
           Inl e \<Rightarrow> Inl e
         | Inr (addr, d1, ip1) \<Rightarrow>
             (let m = min (n - tot) (BSIZE - off mod BSIZE);
                  (ok, bytes) = cpin mem user_src src m;
                  d2 = d1\<lparr>blocks := (blocks d1)
                         (unat addr := block_write (blocks d1 (unat addr)) (off mod BSIZE) (take m bytes))\<rparr>
              in if ok then writei_loop cpin d2 ip1 mem user_src (src + of_nat m) (off + m) n (tot + m)
                 else Inr (d2, ip1, off)))
      else Inr (d, ip, off))"
  by pat_completeness auto
termination
  by (relation "measure (\<lambda>(cpin, d, ip, mem, user_src, src, off, n, tot). n - tot)")
     (auto simp: BSIZE_def)

declare writei_loop.simps [simp del]

text \<open>
  \<^verbatim>\<open>writei\<close>. \<^verbatim>\<open>MAXFILE*BSIZE\<close> has the type of \<^verbatim>\<open>sizeof\<close>, 64 bits, so the
  comparison is with the \<^verbatim>\<open>uint\<close> sum \<^verbatim>\<open>off + n\<close> as a number.
\<close>

definition writei ::
  "'m copyin \<Rightarrow> disk \<Rightarrow> inode \<Rightarrow> 'm \<Rightarrow> int \<Rightarrow> uint64 \<Rightarrow> uint \<Rightarrow> uint
     \<Rightarrow> error + (int \<times> disk \<times> inode)" where
  "writei cpin d ip mem user_src src off n =
     (if off > i_size ip \<or> off + n < off then Inr (- 1, d, ip)
      else if unat (off + n) > MAXFILE * BSIZE then Inr (- 1, d, ip)
      else
        (case writei_loop cpin d ip mem user_src src (unat off) (unat n) 0 of
           Inl e \<Rightarrow> Inl e
         | Inr (d1, ip1, off1) \<Rightarrow>
             (if n > 0 then
                (let ip2 = (if (of_nat off1 :: uint) > i_size ip1
                            then ip1\<lparr>i_size := of_nat off1\<rparr> else ip1)
                 in Inr (sint n, iupdate d1 ip2, ip2))
              else Inr (sint n, d1, ip1))))"

section \<open>Paths\<close>

text \<open>
  A path is the characters of a C string; the string ends at its first \<open>NUL\<close>, or
  where the list ends. \<^verbatim>\<open>name\<close> is the caller's buffer, which
  \<^verbatim>\<open>memmove(name, s, DIRSIZ)\<close> or \<^verbatim>\<open>memmove(name, s, len); name[len] = 0\<close> overwrites
  from its start; what lies behind the bytes written stays. The result is \<open>None\<close> for
  the null pointer, else the rest of the path with the buffer. (\<^verbatim>\<open>len\<close> is an
  \<^verbatim>\<open>int\<close>; the paths that reach \<^verbatim>\<open>skipelem\<close> are shorter than \<open>MAXPATH\<close>.)
\<close>

definition NUL :: char where "NUL = CHR 0x00"

definition slash :: "char \<Rightarrow> bool" where "slash c \<longleftrightarrow> c = CHR ''/''"

definition skipelem :: "string \<Rightarrow> string \<Rightarrow> (string \<times> string) option" where
  "skipelem path name =
     (let p0 = takeWhile (\<lambda>c. c \<noteq> NUL) path;
          p1 = dropWhile slash p0
      in if p1 = [] then None
         else
           (let s = takeWhile (\<lambda>c. \<not> slash c) p1;
                len = length s;
                name1 = (if len \<ge> DIRSIZ then take DIRSIZ s @ drop DIRSIZ name
                         else s @ [NUL] @ drop (len + 1) name)
            in Some (dropWhile slash (drop len p1), name1)))"

text \<open>Two in-memory inodes that differ in \<^verbatim>\<open>addrs\<close> at most.\<close>

definition same_but_addrs :: "inode \<Rightarrow> inode \<Rightarrow> bool" where
  "same_but_addrs ip ip' \<longleftrightarrow> ip'\<lparr>i_addrs := (\<lambda>_. 0)\<rparr> = ip\<lparr>i_addrs := (\<lambda>_. 0)\<rparr>"

section \<open>A small disk\<close>

text \<open>
  A disk of 64 blocks whose inodes are in block 2, all free, and whose bitmap, block 3,
  marks blocks 0 to 9 in use; and the in-memory inode 2 of a file of 2000 bytes in
  blocks 8 and 9.
\<close>

definition ex_sb :: superblock where
  "ex_sb = \<lparr>sb_size = 64, sb_ninodes = 8, sb_inodestart = 2, sb_bmapstart = 3\<rparr>"

definition ex_disk :: disk where
  "ex_disk = \<lparr>sb = ex_sb,
              blocks = (\<lambda>_. zero_block)(3 := zero_block(0 := 0xFF, 1 := 0x03))\<rparr>"

definition ex_inode :: inode where
  "ex_inode = \<lparr>i_dev = 1, i_inum = 2, i_ref = 1, i_locked = True, i_valid = 1,
               i_type = 2, i_major = 0, i_minor = 0, i_nlink = 1, i_size = 2000,
               i_addrs = (\<lambda>_. 0)(0 := 8, 1 := 9)\<rparr>"

text \<open>
  A destination that takes one copy and refuses every later one; the memory is the
  number of bytes it has taken.
\<close>

definition copy_once :: "nat copyout" where
  "copy_once mem user_dst dst bytes = (if mem = 0 then (True, length bytes) else (False, mem))"

text \<open>
  The kernel side of \<^verbatim>\<open>either_copyout\<close> and \<^verbatim>\<open>either_copyin\<close>, taken when
  \<^verbatim>\<open>user_dst\<close> or \<^verbatim>\<open>user_src\<close> is 0, is a \<^verbatim>\<open>memmove\<close>, which cannot fail. The
  memory is a function from the address to the byte.
\<close>

definition memmove_out :: "(uint64 \<Rightarrow> byte) copyout" where
  "memmove_out mem user_dst dst bytes =
     (True, \<lambda>a. if unat (a - dst) < length bytes then bytes ! unat (a - dst) else mem a)"

definition memmove_in :: "(uint64 \<Rightarrow> byte) copyin" where
  "memmove_in mem user_src src len = (True, map (\<lambda>i. mem (src + of_nat i)) [0 ..< len])"

section \<open>The block map as the specification words it\<close>

text \<open>
  The layout of the specification, as a lookup that allocates nothing: the cell of
  \<^verbatim>\<open>addrs\<close> for \<open>bn < NDIRECT\<close>, cell \<open>bn - NDIRECT\<close> of the indirect block for
  the next \<open>NINDIRECT\<close> indices, and for \<open>k = bn - NDIRECT - NINDIRECT\<close> cell
  \<open>k mod NINDIRECT\<close> of the block that cell \<open>k div NINDIRECT\<close> of the doubly-indirect
  block names.
\<close>

definition blk_of :: "disk \<Rightarrow> inode \<Rightarrow> nat \<Rightarrow> uint" where
  "blk_of d ip bn =
     (if bn < NDIRECT then i_addrs ip bn
      else if bn < NDIRECT + NINDIRECT then
        rd32 (blocks d (unat (i_addrs ip NDIRECT))) (bn - NDIRECT)
      else
        (let k = bn - NDIRECT - NINDIRECT in
         rd32 (blocks d (unat (rd32 (blocks d (unat (i_addrs ip (NDIRECT + 1))))
                                  (k div NINDIRECT))))
              (k mod NINDIRECT)))"

text \<open>Every cell on the path of \<open>bn\<close> holds a block number, none is 0.\<close>

definition path_present :: "disk \<Rightarrow> inode \<Rightarrow> nat \<Rightarrow> bool" where
  "path_present d ip bn \<longleftrightarrow>
     (if bn < NDIRECT then i_addrs ip bn \<noteq> 0
      else if bn < NDIRECT + NINDIRECT then
        i_addrs ip NDIRECT \<noteq> 0 \<and> blk_of d ip bn \<noteq> 0
      else
        i_addrs ip (NDIRECT + 1) \<noteq> 0
        \<and> rd32 (blocks d (unat (i_addrs ip (NDIRECT + 1))))
                 ((bn - NDIRECT - NINDIRECT) div NINDIRECT) \<noteq> 0
        \<and> blk_of d ip bn \<noteq> 0)"

text \<open>The byte of the file at position \<open>pos\<close>.\<close>

definition file_byte :: "disk \<Rightarrow> inode \<Rightarrow> nat \<Rightarrow> byte" where
  "file_byte d ip pos = blocks d (unat (blk_of d ip (pos div BSIZE))) (pos mod BSIZE)"

section \<open>The inode cache\<close>

definition ROOTINO :: uint where "ROOTINO = 1"
definition T_DIR :: short where "T_DIR = 1"
definition T_DEVICE :: short where "T_DEVICE = 3"

text \<open>
  The state of the file system: the disk, the table \<^verbatim>\<open>icache.inode[NINODE]\<close>, and the
  current directory \<^verbatim>\<open>myproc()->cwd\<close>. A \<^verbatim>\<open>struct inode *\<close> is the index of a slot.
  One process runs, so \<^verbatim>\<open>icache.lock\<close> is always free when asked for, and a sleep-lock
  that is held when \<^verbatim>\<open>acquiresleep\<close> asks for it is never released: \<open>Deadlock\<close>.
\<close>

record fs =
  fs_disk :: disk
  icache :: "nat \<Rightarrow> inode"
  cwd :: nat

definition set_inode :: "fs \<Rightarrow> nat \<Rightarrow> inode \<Rightarrow> fs" where
  "set_inode st i ip = st\<lparr>icache := (icache st)(i := ip)\<rparr>"


definition idup :: "fs \<Rightarrow> nat \<Rightarrow> fs \<times> nat" where
  "idup st i = (set_inode st i ((icache st i)\<lparr>i_ref := i_ref (icache st i) + 1\<rparr>), i)"


definition ilock :: "fs \<Rightarrow> nat \<Rightarrow> error + fs" where
  "ilock st i =
     (let ip = icache st i in
      if sint (i_ref ip) < 1 then Inl (Panic ''ilock'')
      else if i_locked ip then Inl Deadlock
      else if i_valid ip = 0 then
        (let dip = dinodes (fs_disk st) (unat (i_inum ip));
             ip1 = ip\<lparr>i_locked := True, i_type := d_type dip, i_major := d_major dip,
                      i_minor := d_minor dip, i_nlink := d_nlink dip, i_size := d_size dip,
                      i_addrs := (\<lambda>k. if k < NDIRECT + 2 then d_addrs dip k else i_addrs ip k),
                      i_valid := 1\<rparr>
         in if i_type ip1 = 0 then Inl (Panic ''ilock: no type'')
            else Inr (set_inode st i ip1))
      else Inr (set_inode st i (ip\<lparr>i_locked := True\<rparr>)))"

definition iunlock :: "fs \<Rightarrow> nat \<Rightarrow> error + fs" where
  "iunlock st i =
     (let ip = icache st i in
      if \<not> i_locked ip \<or> sint (i_ref ip) < 1 then Inl (Panic ''iunlock'')
      else Inr (set_inode st i (ip\<lparr>i_locked := False\<rparr>)))"

text \<open>
  \<^verbatim>\<open>itrunc\<close>. \<open>bfree_cells held d blk js\<close> frees the blocks named by the cells
  \<open>js\<close> of block \<open>blk\<close>, whose buffer is held.
\<close>

fun bfree_cells :: "nat list \<Rightarrow> disk \<Rightarrow> nat \<Rightarrow> nat list \<Rightarrow> error + disk" where
  "bfree_cells held d blk [] = Inr d"
| "bfree_cells held d blk (j # js) =
     (if rd32 (blocks d blk) j \<noteq> 0 then
        (case bfree held d (rd32 (blocks d blk) j) of
           Inl e \<Rightarrow> Inl e
         | Inr d1 \<Rightarrow> bfree_cells held d1 blk js)
      else bfree_cells held d blk js)"

fun itrunc_direct :: "disk \<Rightarrow> inode \<Rightarrow> nat list \<Rightarrow> error + (disk \<times> inode)" where
  "itrunc_direct d ip [] = Inr (d, ip)"
| "itrunc_direct d ip (i # is) =
     (if i_addrs ip i \<noteq> 0 then
        (case bfree [] d (i_addrs ip i) of
           Inl e \<Rightarrow> Inl e
         | Inr d1 \<Rightarrow> itrunc_direct d1 (ip\<lparr>i_addrs := (i_addrs ip)(i := 0)\<rparr>) is)
      else itrunc_direct d ip is)"

fun itrunc_dbl :: "disk \<Rightarrow> nat \<Rightarrow> nat list \<Rightarrow> error + disk" where
  "itrunc_dbl d dbl [] = Inr d"
| "itrunc_dbl d dbl (j # js) =
     (let s = rd32 (blocks d dbl) j in
      if s \<noteq> 0 then
        (if unat s = dbl then Inl Deadlock
         else
           (case bfree_cells [dbl, unat s] d (unat s) [0 ..< NINDIRECT] of
              Inl e \<Rightarrow> Inl e
            | Inr d1 \<Rightarrow>
                (case bfree [dbl] d1 (rd32 (blocks d1 dbl) j) of
                   Inl e \<Rightarrow> Inl e
                 | Inr d2 \<Rightarrow> itrunc_dbl d2 dbl js)))
      else itrunc_dbl d dbl js)"

definition itrunc :: "disk \<Rightarrow> inode \<Rightarrow> error + (disk \<times> inode)" where
  "itrunc d ip =
     (case itrunc_direct d ip [0 ..< NDIRECT] of
        Inl e \<Rightarrow> Inl e
      | Inr (d1, ip1) \<Rightarrow>
          (case (if i_addrs ip1 NDIRECT \<noteq> 0 then
                   (case bfree_cells [unat (i_addrs ip1 NDIRECT)] d1 (unat (i_addrs ip1 NDIRECT))
                           [0 ..< NINDIRECT] of
                      Inl e \<Rightarrow> Inl e
                    | Inr d2 \<Rightarrow>
                        (case bfree [] d2 (i_addrs ip1 NDIRECT) of
                           Inl e \<Rightarrow> Inl e
                         | Inr d3 \<Rightarrow> Inr (d3, ip1\<lparr>i_addrs := (i_addrs ip1)(NDIRECT := 0)\<rparr>)))
                 else Inr (d1, ip1)) of
             Inl e \<Rightarrow> Inl e
           | Inr (d4, ip4) \<Rightarrow>
               (case (if i_addrs ip4 (NDIRECT + 1) \<noteq> 0 then
                        (case itrunc_dbl d4 (unat (i_addrs ip4 (NDIRECT + 1))) [0 ..< NINDIRECT] of
                           Inl e \<Rightarrow> Inl e
                         | Inr d5 \<Rightarrow>
                             (case bfree [] d5 (i_addrs ip4 (NDIRECT + 1)) of
                                Inl e \<Rightarrow> Inl e
                              | Inr d6 \<Rightarrow>
                                  Inr (d6, ip4\<lparr>i_addrs := (i_addrs ip4)(NDIRECT + 1 := 0)\<rparr>)))
                      else Inr (d4, ip4)) of
                  Inl e \<Rightarrow> Inl e
                | Inr (d7, ip7) \<Rightarrow>
                    (let ip8 = ip7\<lparr>i_size := 0\<rparr> in Inr (iupdate d7 ip8, ip8)))))"

definition iput :: "fs \<Rightarrow> nat \<Rightarrow> error + fs" where
  "iput st i =
     (let ip = icache st i in
      if i_ref ip = 1 \<and> i_valid ip \<noteq> 0 \<and> i_nlink ip = 0 then
        (if i_locked ip then Inl Deadlock
         else
           (case itrunc (fs_disk st) (ip\<lparr>i_locked := True\<rparr>) of
              Inl e \<Rightarrow> Inl e
            | Inr (d1, ip1) \<Rightarrow>
                (let ip2 = ip1\<lparr>i_type := 0\<rparr>;
                     d2 = iupdate d1 ip2;
                     ip3 = ip2\<lparr>i_valid := 0, i_locked := False\<rparr>
                 in Inr ((set_inode st i (ip3\<lparr>i_ref := i_ref ip3 - 1\<rparr>))\<lparr>fs_disk := d2\<rparr>))))
      else Inr (set_inode st i (ip\<lparr>i_ref := i_ref ip - 1\<rparr>)))"

definition iunlockput :: "fs \<Rightarrow> nat \<Rightarrow> error + fs" where
  "iunlockput st i = (case iunlock st i of Inl e \<Rightarrow> Inl e | Inr st1 \<Rightarrow> iput st1 i)"



section \<open>The bitmap and the blocks of an inode\<close>

text \<open>
  \<open>used d x\<close>: the bit of block \<open>x\<close> is set in the bitmap. The bitmap blocks are
  the blocks \<^verbatim>\<open>balloc\<close> reads as bitmap. \<open>bitmap_ok\<close>: the boot block and the bitmap
  blocks are reserved, their bits are set.
\<close>

definition used :: "disk \<Rightarrow> nat \<Rightarrow> bool" where
  "used d x \<longleftrightarrow> \<not> bit_free (blocks d (BBLOCK x (sb d))) (x mod BPB)"

definition bitmap_blocks :: "disk \<Rightarrow> nat set" where
  "bitmap_blocks d = {bb. \<exists>b. b < unat (sb_size (sb d)) \<and> bb = BBLOCK b (sb d)}"

definition bitmap_ok :: "disk \<Rightarrow> bool" where
  "bitmap_ok d \<longleftrightarrow>
     used d 0 \<and> (\<forall>bb. bb \<in> bitmap_blocks d \<and> bb < unat (sb_size (sb d)) \<longrightarrow> used d bb)"

text \<open>
  A block that \<^verbatim>\<open>balloc\<close> will neither hand out nor write as bitmap: it is on the
  disk, its bit is set, and it is not a bitmap block.
\<close>

definition safe :: "disk \<Rightarrow> nat \<Rightarrow> bool" where
  "safe d x \<longleftrightarrow> x < unat (sb_size (sb d)) \<and> used d x \<and> x \<notin> bitmap_blocks d"

text \<open>The blocks of the disk whose bit is clear in the bitmap.\<close>

definition free_blocks :: "disk \<Rightarrow> nat list" where
  "free_blocks d = filter (\<lambda>x. \<not> used d x) [0 ..< unat (sb_size (sb d))]"

text \<open>
  The cells that hold the block numbers of an inode: the cells of \<^verbatim>\<open>addrs\<close>, the
  cells of the indirect block, the cells of the doubly-indirect block, and cell \<open>i\<close>
  of the block that cell \<open>j\<close> of the doubly-indirect block names. A cell is live when
  the blocks above it are there. The tree of the inode is its live cells with the block
  numbers they hold.
\<close>

datatype cell = Addr nat | Ind nat | Dbl nat | Leaf nat nat

fun cell_val :: "disk \<Rightarrow> inode \<Rightarrow> cell \<Rightarrow> uint" where
  "cell_val d ip (Addr i) = i_addrs ip i"
| "cell_val d ip (Ind j) = rd32 (blocks d (unat (i_addrs ip NDIRECT))) j"
| "cell_val d ip (Dbl j) = rd32 (blocks d (unat (i_addrs ip (NDIRECT + 1)))) j"
| "cell_val d ip (Leaf j i) =
     rd32 (blocks d (unat (rd32 (blocks d (unat (i_addrs ip (NDIRECT + 1)))) j))) i"

fun cell_live :: "disk \<Rightarrow> inode \<Rightarrow> cell \<Rightarrow> bool" where
  "cell_live d ip (Addr i) \<longleftrightarrow> i < NDIRECT + 2"
| "cell_live d ip (Ind j) \<longleftrightarrow> j < NINDIRECT \<and> i_addrs ip NDIRECT \<noteq> 0"
| "cell_live d ip (Dbl j) \<longleftrightarrow> j < NINDIRECT \<and> i_addrs ip (NDIRECT + 1) \<noteq> 0"
| "cell_live d ip (Leaf j i) \<longleftrightarrow>
     j < NINDIRECT \<and> i < NINDIRECT \<and> i_addrs ip (NDIRECT + 1) \<noteq> 0
     \<and> rd32 (blocks d (unat (i_addrs ip (NDIRECT + 1)))) j \<noteq> 0"

definition tree :: "disk \<Rightarrow> inode \<Rightarrow> (cell \<times> uint) set" where
  "tree d ip = {(c, v). cell_live d ip c \<and> v = cell_val d ip c \<and> v \<noteq> 0}"

text \<open>The cells whose blocks hold block numbers, not data.\<close>

fun is_meta :: "cell \<Rightarrow> bool" where
  "is_meta (Addr i) \<longleftrightarrow> i = NDIRECT \<or> i = NDIRECT + 1"
| "is_meta (Ind j) \<longleftrightarrow> False"
| "is_meta (Dbl j) \<longleftrightarrow> True"
| "is_meta (Leaf j i) \<longleftrightarrow> False"

text \<open>The cells on the path of the logical block \<open>bn\<close>; the last one holds its block.\<close>

definition path_cells :: "nat \<Rightarrow> cell list" where
  "path_cells bn =
     (if bn < NDIRECT then [Addr bn]
      else if bn < NDIRECT + NINDIRECT then [Addr NDIRECT, Ind (bn - NDIRECT)]
      else [Addr (NDIRECT + 1), Dbl ((bn - NDIRECT - NINDIRECT) div NINDIRECT),
            Leaf ((bn - NDIRECT - NINDIRECT) div NINDIRECT)
                 ((bn - NDIRECT - NINDIRECT) mod NINDIRECT)])"

text \<open>
  The invariant of the specification for one inode: the reserved blocks are marked in
  use, every block of the inode is on the disk, marked in use and not a bitmap block, and
  no block is referenced twice.
\<close>

definition tree_ok :: "disk \<Rightarrow> inode \<Rightarrow> bool" where
  "tree_ok d ip \<longleftrightarrow>
     bitmap_ok d
     \<and> (\<forall>c v. (c, v) \<in> tree d ip \<longrightarrow> safe d (unat v))
     \<and> (\<forall>c1 c2 v. (c1, v) \<in> tree d ip \<and> (c2, v) \<in> tree d ip \<longrightarrow> c1 = c2)"

text \<open>The block that holds a cell, and the index of the cell in it.\<close>

fun cell_parent :: "disk \<Rightarrow> inode \<Rightarrow> cell \<Rightarrow> nat" where
  "cell_parent d ip (Addr i) = 0"
| "cell_parent d ip (Ind j) = unat (i_addrs ip NDIRECT)"
| "cell_parent d ip (Dbl j) = unat (i_addrs ip (NDIRECT + 1))"
| "cell_parent d ip (Leaf j i) = unat (rd32 (blocks d (unat (i_addrs ip (NDIRECT + 1)))) j)"

fun cell_index :: "cell \<Rightarrow> nat" where
  "cell_index (Addr i) = i"
| "cell_index (Ind j) = j"
| "cell_index (Dbl j) = j"
| "cell_index (Leaf j i) = i"

fun in_block :: "cell \<Rightarrow> bool" where
  "in_block (Addr i) \<longleftrightarrow> False"
| "in_block (Ind j) \<longleftrightarrow> True"
| "in_block (Dbl j) \<longleftrightarrow> True"
| "in_block (Leaf j i) \<longleftrightarrow> True"

text \<open>
  What a call that may allocate guarantees, from \<open>(d, ip)\<close> to \<open>(d', ip')\<close>: the
  invariant holds again, no cell of the tree has changed, the cells that are new are
  among \<open>C\<close> and hold blocks that were free, no block in use has been freed, only
  \<^verbatim>\<open>addrs\<close> has changed in the inode and only blocks on the disk, and the blocks of the
  data cells keep their contents.
\<close>

definition grows :: "disk \<Rightarrow> inode \<Rightarrow> disk \<Rightarrow> inode \<Rightarrow> cell set \<Rightarrow> bool" where
  "grows d ip d' ip' C \<longleftrightarrow>
     tree_ok d' ip' \<and> tree d ip \<subseteq> tree d' ip'
     \<and> (\<forall>c v. (c, v) \<in> tree d' ip' \<and> (c, v) \<notin> tree d ip \<longrightarrow> c \<in> C \<and> \<not> used d (unat v))
     \<and> (\<forall>y. safe d y \<longrightarrow> safe d' y)
     \<and> sb d' = sb d \<and> same_but_addrs ip ip'
     \<and> (\<forall>c v. (c, v) \<in> tree d ip \<and> \<not> is_meta c \<longrightarrow> blocks d' (unat v) = blocks d (unat v))"

text \<open>
  The \<open>cnt\<close> bytes of the file from position \<open>off0\<close> on are mapped and are the first
  \<open>cnt\<close> bytes of \<open>data\<close>.
\<close>

definition holds_data :: "disk \<Rightarrow> inode \<Rightarrow> nat \<Rightarrow> nat \<Rightarrow> byte list \<Rightarrow> bool" where
  "holds_data d ip off0 cnt data \<longleftrightarrow>
     (\<forall>pos. off0 \<le> pos \<and> pos < off0 + cnt \<longrightarrow>
         path_present d ip (pos div BSIZE) \<and> file_byte d ip pos = data ! (pos - off0))"

text \<open>
  The block that holds the on-disk inode is reserved: it is on the disk, marked in use,
  not a bitmap block, and no block of the inode's file.
\<close>

definition inode_apart :: "disk \<Rightarrow> inode \<Rightarrow> bool" where
  "inode_apart d ip \<longleftrightarrow>
     safe d (IBLOCK (unat (i_inum ip)) (sb d))
     \<and> (\<forall>c v. (c, v) \<in> tree d ip \<longrightarrow> unat v \<noteq> IBLOCK (unat (i_inum ip)) (sb d))"

text \<open>
  A source that hands over \<open>data\<close>: every copy of \<open>m\<close> bytes from \<open>tot\<close> bytes behind
  \<open>src\<close> succeeds and gives those bytes of \<open>data\<close>.
\<close>

definition delivers :: "'m copyin \<Rightarrow> 'm \<Rightarrow> int \<Rightarrow> uint64 \<Rightarrow> byte list \<Rightarrow> bool" where
  "delivers cpin mem us src data \<longleftrightarrow>
     (\<forall>tot m. 0 < m \<and> tot + m \<le> length data
        \<longrightarrow> cpin mem us (src + of_nat tot) m = (True, take m (drop tot data)))"

text \<open>
  The bytes \<open>data\<close> of a file from position \<open>off\<close> on, handed to the destination the
  way \<^verbatim>\<open>readi\<close> does it: block by block, up to the first copy that fails.
\<close>

function chunks_out :: "'m copyout \<Rightarrow> 'm \<Rightarrow> int \<Rightarrow> uint64 \<Rightarrow> nat \<Rightarrow> byte list \<Rightarrow> 'm" where
  "chunks_out cpout mem ud dst off data =
     (if data = [] then mem
      else
        (let m = min (length data) (BSIZE - off mod BSIZE) in
         case cpout mem ud dst (take m data) of
           (False, mem1) \<Rightarrow> mem1
         | (True, mem1) \<Rightarrow> chunks_out cpout mem1 ud (dst + of_nat m) (off + m) (drop m data)))"
  by pat_completeness auto
termination
  by (relation "measure (\<lambda>(cpout, mem, ud, dst, off, data). length data)")
     (auto simp: BSIZE_def)

declare chunks_out.simps [simp del]

text \<open>Fifty bytes in kernel memory, from address 0 on.\<close>

definition ex_data :: "byte list" where
  "ex_data = map of_nat [0 ..< 50]"

definition ex_kmem :: "uint64 \<Rightarrow> byte" where
  "ex_kmem a = (if unat a < length ex_data then ex_data ! unat a else 0)"

section \<open>Properties\<close>

lemma balloc_from_err:
  "balloc_from held d b = Inl e \<Longrightarrow>
     e = Deadlock \<or> e = Int_overflow \<or> e = Panic ''balloc: out of blocks''"
proof (induction held d b rule: balloc_from.induct)
  case (1 held d b)
  show ?case
  proof (cases "b < unat (sb_size (sb d))")
    case False
    with "1.prems" show ?thesis by (simp add: balloc_from.simps [of held d b])
  next
    case lt: True
    show ?thesis
    proof (cases "BBLOCK b (sb d) \<in> set held")
      case True
      with lt "1.prems" show ?thesis by (simp add: balloc_from.simps [of held d b])
    next
      case nh: False
      show ?thesis
      proof (cases "balloc_scan (blocks d (BBLOCK b (sb d))) (unat (sb_size (sb d))) b 0")
        case None
        with lt nh "1.prems" "1.IH" show ?thesis
          by (simp add: balloc_from.simps [of held d b] split: if_splits)
      next
        case (Some bi)
        with lt nh "1.prems" show ?thesis
          by (auto simp: balloc_from.simps [of held d b] bzero_def Let_def
                   split: if_splits sum.splits)
      qed
    qed
  qed
qed

lemma balloc_err:
  "balloc held d = Inl e \<Longrightarrow>
     e = Deadlock \<or> e = Int_overflow \<or> e = Panic ''balloc: out of blocks''"
  unfolding balloc_def by (rule balloc_from_err)

lemma bmap_addr_err:
  "bmap_addr d ip i = Inl e \<Longrightarrow>
     e = Deadlock \<or> e = Int_overflow \<or> e = Panic ''balloc: out of blocks''"
  by (auto simp: bmap_addr_def split: if_splits sum.splits dest: balloc_err)

lemma bmap_cell_err:
  "bmap_cell d blk i = Inl e \<Longrightarrow>
     e = Deadlock \<or> e = Int_overflow \<or> e = Panic ''balloc: out of blocks''"
  by (auto simp: bmap_cell_def split: if_splits sum.splits dest: balloc_err)

lemma bmap_err:
  "bmap d ip bn = Inl e \<Longrightarrow>
     e = Deadlock \<or> e = Int_overflow \<or> e = Out_of_bounds
       \<or> e = Panic ''balloc: out of blocks''"
  by (auto simp: bmap_def Let_def split: if_splits sum.splits prod.splits
           dest: bmap_addr_err bmap_cell_err)

text \<open>
  C6. For a block index at or past \<open>MAXFILE\<close> the claim has \<^verbatim>\<open>bmap\<close> reach its
  \<^verbatim>\<open>panic("bmap: out of range")\<close>. In the source no index does: whatever the disk,
  the inode and \<open>bn\<close>, \<^verbatim>\<open>bmap\<close> never ends in that panic.
\<close>

theorem bmap_range_panic_unreachable:
  "bmap d ip bn \<noteq> Inl (Panic ''bmap: out of range'')"
proof
  assume "bmap d ip bn = Inl (Panic ''bmap: out of range'')"
  from bmap_err [OF this] show False by simp
qed

lemma uint_add_wrap: "(off :: uint) + n < off \<longleftrightarrow> unat off + unat n \<ge> 2 ^ 32"
  using no_olen_add_nat [of off n] by (simp add: not_le [symmetric])

lemma MAXFILE_BSIZE: "MAXFILE * BSIZE < 2 ^ 31"
  by (simp add: MAXFILE_def NINDIRECT_def BSIZE_def NDIRECT_def)

lemma writei_loop_off:
  "writei_loop cpin d ip mem us src off n tot = Inr (d', ip', off') \<Longrightarrow>
   \<forall>m u s l. fst (cpin m u s l) \<Longrightarrow> tot \<le> n \<Longrightarrow> off' = off + (n - tot)"
proof (induction cpin d ip mem us src off n tot rule: writei_loop.induct)
  case (1 cpin d ip mem us src off n tot)
  show ?case
  proof (cases "tot < n")
    case False
    with "1.prems" show ?thesis by (simp add: writei_loop.simps [of _ _ _ _ _ _ _ n tot])
  next
    case True
    then obtain addr d1 ip1 where b: "bmap d ip (of_nat (off div BSIZE)) = Inr (addr, d1, ip1)"
      using "1.prems"(1) by (auto simp: writei_loop.simps [of _ _ _ _ _ _ _ n tot] split: sum.splits)
    define m where "m = min (n - tot) (BSIZE - off mod BSIZE)"
    obtain ok bytes where c: "cpin mem us src m = (ok, bytes)" by (cases "cpin mem us src m")
    with "1.prems"(2) have ok: "ok" by (metis fst_conv)
    define d2 where "d2 = d1\<lparr>blocks := (blocks d1)
       (unat addr := block_write (blocks d1 (unat addr)) (off mod BSIZE) (take m bytes))\<rparr>"
    have rec: "writei_loop cpin d2 ip1 mem us (src + of_nat m) (off + m) n (tot + m) = Inr (d', ip', off')"
      using "1.prems"(1) True b c ok
      by (simp add: writei_loop.simps [of _ _ _ _ _ _ _ n tot] m_def d2_def Let_def)
    have le: "tot + m \<le> n" using True by (simp add: m_def)
    have "off' = off + m + (n - (tot + m))"
      by (rule "1.IH" [OF True b refl refl m_def refl c [symmetric] d2_def ok rec "1.prems"(2) le])
    with le show ?thesis by simp
  qed
qed

lemma sint_small: "unat (w :: uint) < 2 ^ 31 \<Longrightarrow> sint w = int (unat w)"
proof -
  assume "unat w < 2 ^ 31"
  then have "int (unat w) < int (2 ^ 31)" by (simp only: of_nat_less_iff)
  then have lt: "uint w < 2 ^ 31" by simp
  have "(0::int) \<le> uint w" by simp
  then have ge: "- (2 ^ 31) \<le> uint w" by (rule order_trans [rotated]) simp
  have "signed_take_bit 31 (uint w) = uint w"
    by (rule signed_take_bit_int_eq_self [OF ge lt])
  then show ?thesis by (simp add: sint_uint)
qed

lemma same_but_addrs_refl [simp]: "same_but_addrs ip ip"
  by (simp add: same_but_addrs_def)

lemma same_but_addrs_upd [simp]: "same_but_addrs ip (ip\<lparr>i_addrs := f\<rparr>)"
  by (simp add: same_but_addrs_def)

lemma same_but_addrs_trans:
  "same_but_addrs a b \<Longrightarrow> same_but_addrs b c \<Longrightarrow> same_but_addrs a c"
  by (simp add: same_but_addrs_def)

lemma same_but_addrs_fields:
  assumes "same_but_addrs ip ip'"
  shows "i_dev ip' = i_dev ip" "i_inum ip' = i_inum ip" "i_ref ip' = i_ref ip"
    "i_locked ip' = i_locked ip" "i_valid ip' = i_valid ip" "i_type ip' = i_type ip"
    "i_major ip' = i_major ip" "i_minor ip' = i_minor ip" "i_nlink ip' = i_nlink ip"
    "i_size ip' = i_size ip"
  using assms unfolding same_but_addrs_def
  by (cases ip, cases ip', simp)+

lemma bmap_addr_inode:
  "bmap_addr d ip i = Inr (a, d', ip') \<Longrightarrow> same_but_addrs ip ip'"
  by (auto simp: bmap_addr_def split: if_splits sum.splits)

lemma bmap_inode:
  "bmap d ip bn = Inr (a, d', ip') \<Longrightarrow> same_but_addrs ip ip'"
  unfolding bmap_def Let_def
  by (simp split: if_splits sum.splits prod.splits) (blast intro: bmap_addr_inode)+

lemma writei_loop_inode:
  "writei_loop cpin d ip mem us src off n tot = Inr (d', ip', off') \<Longrightarrow>
   same_but_addrs ip ip'"
proof (induction cpin d ip mem us src off n tot rule: writei_loop.induct)
  case (1 cpin d ip mem us src off n tot)
  show ?case
  proof (cases "tot < n")
    case False
    with "1.prems" show ?thesis by (simp add: writei_loop.simps [of _ _ _ _ _ _ _ n tot])
  next
    case True
    then obtain addr d1 ip1 where b: "bmap d ip (of_nat (off div BSIZE)) = Inr (addr, d1, ip1)"
      using "1.prems"(1) by (auto simp: writei_loop.simps [of _ _ _ _ _ _ _ n tot] split: sum.splits)
    define m where "m = min (n - tot) (BSIZE - off mod BSIZE)"
    obtain ok bytes where c: "cpin mem us src m = (ok, bytes)" by (cases "cpin mem us src m")
    define d2 where "d2 = d1\<lparr>blocks := (blocks d1)
       (unat addr := block_write (blocks d1 (unat addr)) (off mod BSIZE) (take m bytes))\<rparr>"
    note ip1 = bmap_inode [OF b]
    show ?thesis
    proof (cases ok)
      case False
      with "1.prems"(1) True b c have "ip' = ip1"
        by (simp add: writei_loop.simps [of _ _ _ _ _ _ _ n tot] flip: m_def)
      with ip1 show ?thesis by blast
    next
      case ok: True
      have rec: "writei_loop cpin d2 ip1 mem us (src + of_nat m) (off + m) n (tot + m) = Inr (d', ip', off')"
        using "1.prems"(1) True b c ok
        by (simp add: writei_loop.simps [of _ _ _ _ _ _ _ n tot] m_def d2_def Let_def)
      have "same_but_addrs ip1 ip'"
        by (rule "1.IH" [OF True b refl refl m_def refl c [symmetric] d2_def ok rec])
      with ip1 show ?thesis by (rule same_but_addrs_trans)
    qed
  qed
qed

text \<open>
  C5. \<^verbatim>\<open>writei\<close> returns \<open>-1\<close>, with the disk and the inode untouched, when \<open>off\<close>
  is strictly past the size, when \<open>off + n\<close> wraps, or when \<open>off + n\<close> exceeds
  \<open>MAXFILE * BSIZE\<close>. A write that starts exactly at the size and fits is not rejected:
  whenever it returns, it returns \<open>n\<close>, and when every copy succeeds the size has
  grown to \<open>off + n\<close>.
\<close>

theorem writei_preconditions:
  "(unat off > unat (i_size ip) \<or> unat off + unat n \<ge> 2 ^ 32
      \<or> unat off + unat n > MAXFILE * BSIZE
    \<longrightarrow> writei cpin d ip mem us src off n = Inr (- 1, d, ip))
   \<and> (off = i_size ip \<and> unat off + unat n \<le> MAXFILE * BSIZE
        \<and> writei cpin d ip mem us src off n = Inr (r, d', ip')
    \<longrightarrow> r = int (unat n)
        \<and> ((\<forall>m u s l. fst (cpin m u s l)) \<longrightarrow> unat (i_size ip') = unat off + unat n))"
proof -
  have reject: "writei cpin d ip mem us src off n = Inr (- 1, d, ip)"
    if "unat off > unat (i_size ip) \<or> unat off + unat n \<ge> 2 ^ 32
      \<or> unat off + unat n > MAXFILE * BSIZE"
  proof -
    from that consider "off > i_size ip \<or> off + n < off"
      | "\<not> (off + n < off)" "unat off + unat n > MAXFILE * BSIZE"
      using uint_add_wrap [of off n] by (auto simp: word_less_nat_alt)
    then show ?thesis
    proof cases
      case 1
      then show ?thesis by (simp add: writei_def)
    next
      case 2
      then have "unat (off + n) = unat off + unat n"
        by (simp add: uint_add_wrap unat_add_lem [THEN iffD1])
      with 2 show ?thesis by (simp add: writei_def)
    qed
  qed
  have accept: "r = int (unat n)
        \<and> ((\<forall>m u s l. fst (cpin m u s l)) \<longrightarrow> unat (i_size ip') = unat off + unat n)"
    if a1: "off = i_size ip" and a2: "unat off + unat n \<le> MAXFILE * BSIZE"
      and a: "writei cpin d ip mem us src off n = Inr (r, d', ip')"
  proof
    from a2 MAXFILE_BSIZE have small: "unat off + unat n < 2 ^ 31" by linarith
    then have nw: "\<not> (off + n < off)" and sum: "unat (off + n) = unat off + unat n"
      by (simp_all add: uint_add_wrap unat_add_lem [THEN iffD1])
    from small have sn: "sint n = int (unat n)" by (simp add: sint_small)
    from a1 a2 nw sum have w: "writei cpin d ip mem us src off n =
      (case writei_loop cpin d ip mem us src (unat off) (unat n) 0 of
           Inl e \<Rightarrow> Inl e
         | Inr (d1, ip1, off1) \<Rightarrow>
             (if n > 0 then
                (let ip2 = (if (of_nat off1 :: uint) > i_size ip1
                            then ip1\<lparr>i_size := of_nat off1\<rparr> else ip1)
                 in Inr (sint n, iupdate d1 ip2, ip2))
              else Inr (sint n, d1, ip1)))"
      by (simp add: writei_def)
    with a obtain d1 ip1 off1 where
      l: "writei_loop cpin d ip mem us src (unat off) (unat n) 0 = Inr (d1, ip1, off1)"
      by (auto split: sum.splits)
    from a w l sn show "r = int (unat n)"
      by (simp add: Let_def split: if_splits)
    show "(\<forall>m u s l. fst (cpin m u s l)) \<longrightarrow> unat (i_size ip') = unat off + unat n"
    proof
      assume ok: "\<forall>m u s l. fst (cpin m u s l)"
      from writei_loop_off [OF l ok] have off1: "off1 = unat off + unat n" by simp
      from writei_loop_inode [OF l] have sz1: "i_size ip1 = i_size ip"
        by (rule same_but_addrs_fields)
      have u: "unat (of_nat off1 :: uint) = unat off + unat n"
        using small off1 sum by simp
      show "unat (i_size ip') = unat off + unat n"
      proof (cases "n > 0")
        case True
        then have "unat n > 0" by (simp add: word_less_nat_alt)
        with u sz1 a1 have "(of_nat off1 :: uint) > i_size ip1"
          by (simp add: word_less_nat_alt)
        with a w l True have "ip' = ip1\<lparr>i_size := of_nat off1\<rparr>" by (auto simp: Let_def)
        with u show ?thesis by simp
      next
        case False
        then have "n = 0" by (simp add: word_greater_zero_iff)
        with a w l sz1 a1 show ?thesis by simp
      qed
    qed
  qed
  from reject accept show ?thesis by blast
qed

lemma dropWhile_slash_replicate:
  "dropWhile slash (replicate k (CHR ''/'') @ xs) = dropWhile slash xs"
  by (induction k) (simp_all add: slash_def)

lemma takeWhile_notnul: "NUL \<notin> set xs \<Longrightarrow> takeWhile (\<lambda>c. c \<noteq> NUL) xs = xs"
  by (induction xs) auto

text \<open>
  C7. A path of \<open>k\<close> slashes, a component \<open>elem\<close> (not empty, without slash),
  \<open>j\<close> slashes and a rest that does not start with a slash: \<^verbatim>\<open>skipelem\<close> returns the
  rest, and the name buffer holds the component followed by \<open>NUL\<close> when the component
  is shorter than \<open>DIRSIZ\<close>, and the first \<open>DIRSIZ\<close> characters of the component and
  no \<open>NUL\<close> after them when it is not. A path of slashes only has no component, and
  the result is the null pointer.
\<close>

theorem skipelem_component:
  "(NUL \<notin> set elem \<and> CHR ''/'' \<notin> set elem \<and> elem \<noteq> [] \<and> NUL \<notin> set rest
      \<and> (rest = [] \<or> hd rest \<noteq> CHR ''/'') \<and> (j = 0 \<longrightarrow> rest = [])
    \<longrightarrow> skipelem (replicate k (CHR ''/'') @ elem @ replicate j (CHR ''/'') @ rest) name =
          Some (rest, if length elem < DIRSIZ
                      then elem @ [NUL] @ drop (length elem + 1) name
                      else take DIRSIZ elem @ drop DIRSIZ name))
   \<and> skipelem (replicate k (CHR ''/'')) name = None"
proof (intro conjI impI)
  show "skipelem (replicate k (CHR ''/'')) name = None"
  proof -
    have "NUL \<notin> set (replicate k (CHR ''/''))" by (auto simp: NUL_def)
    then have "takeWhile (\<lambda>c. c \<noteq> NUL) (replicate k (CHR ''/'')) = replicate k (CHR ''/'')"
      by (rule takeWhile_notnul)
    moreover have "dropWhile slash (replicate k (CHR ''/'')) = []"
      using dropWhile_slash_replicate [of k "[]"] by simp
    ultimately show ?thesis by (simp add: skipelem_def slash_def NUL_def)
  qed
next
  assume a: "NUL \<notin> set elem \<and> CHR ''/'' \<notin> set elem \<and> elem \<noteq> [] \<and> NUL \<notin> set rest
      \<and> (rest = [] \<or> hd rest \<noteq> CHR ''/'') \<and> (j = 0 \<longrightarrow> rest = [])"
  let ?path = "replicate k (CHR ''/'') @ elem @ replicate j (CHR ''/'') @ rest"
  let ?tail = "replicate j (CHR ''/'') @ rest"
  from a have "NUL \<notin> set ?path" by (auto simp: NUL_def)
  then have p0: "takeWhile (\<lambda>c. c \<noteq> NUL) ?path = ?path" by (rule takeWhile_notnul)
  from a have hd: "\<not> slash (hd elem)" by (cases elem) (auto simp: slash_def)
  with a have p1: "dropWhile slash ?path = elem @ ?tail"
    by (cases elem) (auto simp: dropWhile_slash_replicate)
  have tl: "?tail = [] \<or> slash (hd ?tail)"
    using a by (cases j) (auto simp: slash_def)
  have tw: "takeWhile (\<lambda>c. \<not> slash c) (elem @ ?tail) = elem"
  proof -
    from a have "\<forall>c\<in>set elem. \<not> slash c" by (auto simp: slash_def)
    moreover from tl have "takeWhile (\<lambda>c. \<not> slash c) ?tail = []"
      by (cases ?tail) auto
    ultimately show ?thesis by (simp add: takeWhile_append2 del: append_assoc)
  qed
  have dw: "dropWhile slash ?tail = rest"
    using a dropWhile_slash_replicate [of j rest] by (cases rest) (auto simp: slash_def)
  have ne: "elem @ ?tail \<noteq> []" using a by simp
  have dr: "drop (length elem) (elem @ ?tail) = ?tail" by simp
  show "skipelem ?path name =
          Some (rest, if length elem < DIRSIZ
                      then elem @ [NUL] @ drop (length elem + 1) name
                      else take DIRSIZ elem @ drop DIRSIZ name)"
    unfolding skipelem_def Let_def p0 p1 tw dr dw using ne by (simp add: not_le)
qed

lemma length_block_bytes [simp]: "length (block_bytes blk pos m) = m"
  by (simp add: block_bytes_def)

text \<open>
  C4. The claim: after a copy that fails, \<^verbatim>\<open>readi\<close> returns the number of bytes
  transferred up to then. Reading the 2000 bytes of the file into a destination that takes
  the first copy, the 1024 bytes of block 8, and refuses the second, \<^verbatim>\<open>readi\<close> returns
  2000, the clamped \<open>n\<close>: the loop leaves by \<^verbatim>\<open>break\<close> with \<open>tot = 1024\<close> and the
  function ends in \<^verbatim>\<open>return n\<close>.
\<close>

theorem readi_returns_clamped_count_after_failed_copy:
  "readi copy_once ex_disk ex_inode 0 0 0 0 2000 = Inr (2000, ex_disk, ex_inode, 1024)"
  by (simp add: readi_def readi_loop.simps bmap_def bmap_addr_def ex_inode_def
      copy_once_def BSIZE_def NDIRECT_def Let_def)

theorem writei_preconditions_witness:
  "unat (i_size ex_inode) < unat (2001 :: uint)
   \<and> writei memmove_in ex_disk ex_inode (\<lambda>_. 0) 0 0 2001 1 = Inr (- 1, ex_disk, ex_inode)"
  using writei_preconditions [where off = 2001 and ip = ex_inode and n = 1 and cpin = memmove_in
      and d = ex_disk and mem = "\<lambda>_. 0" and us = 0 and src = 0]
  by (simp add: ex_inode_def)

theorem skipelem_component_witness:
  "skipelem ''///a//bb'' (replicate 14 (CHR ''x'')) = Some (''bb'', CHR ''a'' # NUL # replicate 12 (CHR ''x''))"
  using skipelem_component [of "''a''" "''bb''" 2 3 "replicate 14 (CHR ''x'')"]
  by (simp add: NUL_def DIRSIZ_def numeral_eq_Suc)

lemma MAXFILE_less: "MAXFILE < 2 ^ 32"
  by (simp add: MAXFILE_def NINDIRECT_def BSIZE_def NDIRECT_def)

lemma NINDIRECT_pos: "0 < NINDIRECT"
  by (simp add: NINDIRECT_def BSIZE_def)

lemma unat_of_nat_bn: "bn < MAXFILE \<Longrightarrow> unat (of_nat bn :: uint) = bn"
  using MAXFILE_less by (simp add: unat_of_nat)

lemma bmap_addr_present:
  "i_addrs ip i \<noteq> 0 \<Longrightarrow> bmap_addr d ip i = Inr (i_addrs ip i, d, ip)"
  by (simp add: bmap_addr_def)

lemma bmap_cell_present:
  "rd32 (blocks d blk) i \<noteq> 0 \<Longrightarrow> bmap_cell d blk i = Inr (rd32 (blocks d blk) i, d)"
  by (simp add: bmap_cell_def)

lemma dbl_index: "bn < MAXFILE \<Longrightarrow> \<not> bn < NDIRECT + NINDIRECT \<Longrightarrow>
  (bn - NDIRECT - NINDIRECT) div NINDIRECT < NINDIRECT"
proof -
  assume "bn < MAXFILE" "\<not> bn < NDIRECT + NINDIRECT"
  then have "bn - NDIRECT - NINDIRECT < NINDIRECT * NINDIRECT"
    by (simp add: MAXFILE_def)
  then show ?thesis using NINDIRECT_pos by (simp add: less_mult_imp_div_less)
qed

lemma bmap_present:
  assumes "bn < MAXFILE" "path_present d ip bn"
  shows "bmap d ip (of_nat bn) = Inr (blk_of d ip bn, d, ip)"
proof -
  consider "bn < NDIRECT" | "\<not> bn < NDIRECT" "bn < NDIRECT + NINDIRECT"
    | "\<not> bn < NDIRECT + NINDIRECT" by linarith
  then show ?thesis
  proof cases
    case 1
    with assms show ?thesis
      by (simp add: bmap_def unat_of_nat_bn path_present_def blk_of_def bmap_addr_present)
  next
    case 2
    then have "bn - NDIRECT < NINDIRECT" by simp
    with 2 assms show ?thesis
      by (simp add: bmap_def unat_of_nat_bn path_present_def blk_of_def bmap_addr_present
          bmap_cell_present Let_def)
  next
    case 3
    then have a: "\<not> bn < NDIRECT" "\<not> bn - NDIRECT < NINDIRECT" by simp_all
    have b: "bn - NDIRECT - NINDIRECT = bn - (NDIRECT + NINDIRECT)" by simp
    from 3 assms(1) have c: "\<not> NINDIRECT \<le> (bn - NDIRECT - NINDIRECT) div NINDIRECT"
      using dbl_index by (simp add: not_le)
    from 3 a c assms show ?thesis
      by (simp add: bmap_def unat_of_nat_bn path_present_def blk_of_def bmap_addr_present
          bmap_cell_present Let_def)
  qed
qed

lemma unat_sub_of_nat64:
  fixes x :: uint64
  assumes "m \<le> unat x"
  shows "unat (x - of_nat m) = unat x - m"
proof -
  have "m < 2 ^ 64" using assms unsigned_less [of x, where 'a = nat] by simp
  then have um: "unat (of_nat m :: uint64) = m" by (simp add: unat_of_nat)
  with assms have "(of_nat m :: uint64) \<le> x" by (simp add: word_le_nat_alt)
  then show ?thesis using um by (simp add: unat_sub)
qed

lemma unat_sub_of_nat64_wrap:
  fixes x :: uint64
  assumes "unat x < m" "m < 2 ^ 64"
  shows "unat (x - of_nat m) = 2 ^ 64 + unat x - m"
proof -
  have um: "unat (of_nat m :: uint64) = m" using assms by (simp add: unat_of_nat)
  have "unat (x - of_nat m) = (unat x + 2 ^ 64 - m) mod 2 ^ 64"
    using unat_sub_if' [of x "of_nat m"] um assms by (simp add: unat_word_ariths)
  moreover have "unat x + 2 ^ 64 - m < 2 ^ 64" using assms by simp
  ultimately show ?thesis by simp
qed

lemma div_mod_within:
  fixes off :: nat
  assumes "off mod B + x < B"
  shows "(off + x) div B = off div B" "(off + x) mod B = off mod B + x"
proof -
  have e: "off + x = off div B * B + (off mod B + x)" by simp
  have "(off div B * B + (off mod B + x)) div B = off div B"
    using assms by (simp only: div_mult_self3) simp
  with e show "(off + x) div B = off div B" by simp
  have "(off div B * B + (off mod B + x)) mod B = off mod B + x"
    using assms by (simp only: mod_mult_self3) simp
  with e show "(off + x) mod B = off mod B + x" by simp
qed

lemma nth_block_bytes: "x < m \<Longrightarrow> block_bytes blk pos m ! x = blk (pos + x)"
  by (simp add: block_bytes_def)

lemma readi_loop_present:
  assumes "tot \<le> n" "n < 2 ^ 64" "off + (n - tot) \<le> MAXFILE * BSIZE"
    and "\<forall>pos. off \<le> pos \<and> pos < off + (n - tot) \<longrightarrow> path_present d ip (pos div BSIZE)"
  shows "readi_loop memmove_out d ip mem u dst off n tot =
     Inr (d, ip, (\<lambda>a. if unat (a - dst) < n - tot then file_byte d ip (off + unat (a - dst))
                       else mem a), n)"
  using assms
proof (induction memmove_out d ip mem u dst off n tot rule: readi_loop.induct)
  case (1 d ip mem u dst off n tot)
  show ?case
  proof (cases "tot < n")
    case False
    then have "readi_loop memmove_out d ip mem u dst off n tot = Inr (d, ip, mem, tot)"
      by (simp add: readi_loop.simps [of _ _ _ _ _ _ _ n tot])
    moreover from False "1.prems" have "tot = n" by simp
    ultimately show ?thesis by simp
  next
    case True
    define bn where "bn = off div BSIZE"
    define m where "m = min (n - tot) (BSIZE - off mod BSIZE)"
    have mpos: "0 < m" "m \<le> n - tot" "off mod BSIZE + m \<le> BSIZE"
      using True by (simp_all add: m_def BSIZE_def)
    have "off < MAXFILE * BSIZE" using True "1.prems" by simp
    then have bnlt: "bn < MAXFILE" by (simp add: bn_def less_mult_imp_div_less)
    have pp: "path_present d ip bn" using "1.prems"(4) True by (simp add: bn_def)
    have b: "bmap d ip (of_nat (off div BSIZE)) = Inr (blk_of d ip bn, d, ip)"
      using bmap_present [OF bnlt pp] by (simp add: bn_def)
    define bytes where "bytes = block_bytes (blocks d (unat (blk_of d ip bn))) (off mod BSIZE) m"
    define mem1 where "mem1 = (\<lambda>a. if unat (a - dst) < length bytes then bytes ! unat (a - dst) else mem a)"
    have c: "memmove_out mem u dst bytes = (True, mem1)"
      by (simp add: memmove_out_def mem1_def)
    have lb: "length bytes = m" by (simp add: bytes_def)
    have IH: "readi_loop memmove_out d ip mem1 u (dst + of_nat m) (off + m) n (tot + m) =
      Inr (d, ip, (\<lambda>a. if unat (a - (dst + of_nat m)) < n - (tot + m)
                         then file_byte d ip (off + m + unat (a - (dst + of_nat m)))
                         else mem1 a), n)"
    proof (rule "1.hyps" [OF True b refl refl m_def])
      show "(True, mem1) = memmove_out mem u dst
          (block_bytes (blocks d (unat (blk_of d ip bn))) (off mod BSIZE) m)"
        using c by (simp add: bytes_def)
      show "tot + m \<le> n" using mpos by simp
      show "n < 2 ^ 64" by fact
      show "off + m + (n - (tot + m)) \<le> MAXFILE * BSIZE" using "1.prems" mpos by simp
      show "\<forall>pos. off + m \<le> pos \<and> pos < off + m + (n - (tot + m)) \<longrightarrow>
            path_present d ip (pos div BSIZE)" using "1.prems"(4) mpos by simp
    qed simp
    have step: "readi_loop memmove_out d ip mem u dst off n tot =
        readi_loop memmove_out d ip mem1 u (dst + of_nat m) (off + m) n (tot + m)"
      using True b c by (simp add: readi_loop.simps [of _ _ _ _ _ _ _ n tot] bytes_def m_def Let_def)
    have "(\<lambda>a. if unat (a - (dst + of_nat m)) < n - (tot + m)
                         then file_byte d ip (off + m + unat (a - (dst + of_nat m)))
                         else mem1 a) =
          (\<lambda>a. if unat (a - dst) < n - tot then file_byte d ip (off + unat (a - dst))
                       else mem a)"
    proof
      fix a
      let ?x = "a - dst"
      have e: "a - (dst + of_nat m) = ?x - of_nat m" by simp
      show "(if unat (a - (dst + of_nat m)) < n - (tot + m)
                         then file_byte d ip (off + m + unat (a - (dst + of_nat m)))
                         else mem1 a) =
          (if unat (a - dst) < n - tot then file_byte d ip (off + unat (a - dst))
                       else mem a)"
      proof (cases "m \<le> unat ?x")
        case True
        then have "unat (?x - of_nat m) = unat ?x - m" by (rule unat_sub_of_nat64)
        with True mpos show ?thesis unfolding e by (auto simp: mem1_def lb)
      next
        case False
        then have lt: "unat ?x < m" by simp
        have "m < 2 ^ 64" using mpos "1.prems" by simp
        with lt have "unat (?x - of_nat m) = 2 ^ 64 + unat ?x - m"
          by (rule unat_sub_of_nat64_wrap)
        then have big: "\<not> unat (?x - of_nat m) < n - (tot + m)" using "1.prems" mpos lt by simp
        have "bytes ! unat ?x = file_byte d ip (off + unat ?x)"
        proof -
          have w: "off mod BSIZE + unat ?x < BSIZE" using lt mpos by simp
          show ?thesis
            using lt by (simp add: bytes_def nth_block_bytes file_byte_def div_mod_within [OF w] bn_def)
        qed
        with lt big mpos show ?thesis unfolding e by (simp add: mem1_def lb)
      qed
    qed
    with step IH show ?thesis by simp
  qed
qed

lemma readi_loop_inode_ret:
  "readi cpout d ip mem u dst off n = Inr (r, d', ip', mem') \<Longrightarrow>
   \<not> (off > i_size ip \<or> off + n < off) \<Longrightarrow>
   r = sint (if off + n > i_size ip then i_size ip - off else n)"
  by (auto simp: readi_def Let_def split: sum.splits if_splits)

text \<open>
  C3. \<^verbatim>\<open>readi\<close> returns \<open>-1\<close>, changing nothing, when \<open>off\<close> is past the size or
  \<open>off + n\<close> wraps. Otherwise, on an inode of at most \<open>MAXFILE * BSIZE\<close> bytes, whatever
  it returns is the count \<open>min n (size - off)\<close>, a read past the end being clamped, not
  rejected; and when every block of the file is mapped and the destination is kernel
  memory, it does return, with disk and inode unchanged and exactly that many bytes of
  the file, from \<open>off\<close> on, copied to \<open>dst\<close>.
\<close>

theorem readi_range_and_clamp:
  "(off > i_size ip \<or> unat off + unat n \<ge> 2 ^ 32
      \<longrightarrow> readi cpout d ip mem u dst off n = Inr (- 1, d, ip, mem))
   \<and> (off \<le> i_size ip \<and> unat off + unat n < 2 ^ 32 \<and> unat (i_size ip) \<le> MAXFILE * BSIZE
      \<longrightarrow> (\<forall>r d' ip' mem'. readi cpout d ip mem u dst off n = Inr (r, d', ip', mem')
             \<longrightarrow> r = int (min (unat n) (unat (i_size ip) - unat off)))
         \<and> ((\<forall>bn. bn * BSIZE < unat (i_size ip) \<longrightarrow> path_present d ip bn)
             \<longrightarrow> readi memmove_out d ip kmem u dst off n =
                   Inr (int (min (unat n) (unat (i_size ip) - unat off)), d, ip,
                        (\<lambda>a. if unat (a - dst) < min (unat n) (unat (i_size ip) - unat off)
                              then file_byte d ip (unat off + unat (a - dst))
                              else kmem a))))"
proof -
  have reject: "readi cpout d ip mem u dst off n = Inr (- 1, d, ip, mem)"
    if "off > i_size ip \<or> unat off + unat n \<ge> 2 ^ 32"
    using that uint_add_wrap [of off n] by (auto simp: readi_def)
  have accept:
    "(\<forall>r d' ip' mem'. readi cpout d ip mem u dst off n = Inr (r, d', ip', mem')
             \<longrightarrow> r = int (min (unat n) (unat (i_size ip) - unat off)))
         \<and> ((\<forall>bn. bn * BSIZE < unat (i_size ip) \<longrightarrow> path_present d ip bn)
             \<longrightarrow> readi memmove_out d ip kmem u dst off n =
                   Inr (int (min (unat n) (unat (i_size ip) - unat off)), d, ip,
                        (\<lambda>a. if unat (a - dst) < min (unat n) (unat (i_size ip) - unat off)
                              then file_byte d ip (unat off + unat (a - dst))
                              else kmem a)))"
    if le: "off \<le> i_size ip" and nw: "unat off + unat n < 2 ^ 32"
      and sz: "unat (i_size ip) \<le> MAXFILE * BSIZE"
  proof -
    define n1 where "n1 = (if off + n > i_size ip then i_size ip - off else n)"
    define c where "c = min (unat n) (unat (i_size ip) - unat off)"
    have nwrap: "\<not> off + n < off" using nw by (simp add: uint_add_wrap)
    have sum: "unat (off + n) = unat off + unat n"
      using nw by (simp add: unat_add_lem [THEN iffD1])
    have sub: "unat (i_size ip - off) = unat (i_size ip) - unat off"
      using le by (simp add: unat_sub)
    have un1: "unat n1 = c"
      using sum sub le by (auto simp: n1_def c_def word_less_nat_alt word_le_nat_alt)
    have "c < 2 ^ 31" using sz MAXFILE_BSIZE by (simp add: c_def)
    with un1 have sn1: "sint n1 = int c" by (simp add: sint_small)
    have notrej: "\<not> (off > i_size ip \<or> off + n < off)" using le nwrap by (simp add: not_less)
    have first: "r = int c" if "readi cpout d ip mem u dst off n = Inr (r, d', ip', mem')"
      for r d' ip' mem'
      using readi_loop_inode_ret [OF that notrej] sn1 by (simp add: n1_def)
    have second: "readi memmove_out d ip kmem u dst off n =
                   Inr (int c, d, ip,
                        (\<lambda>a. if unat (a - dst) < c
                              then file_byte d ip (unat off + unat (a - dst))
                              else kmem a))"
      if pres: "\<forall>bn. bn * BSIZE < unat (i_size ip) \<longrightarrow> path_present d ip bn"
    proof -
      have cle: "unat off + c \<le> unat (i_size ip)"
        using le by (simp add: c_def word_le_nat_alt)
      have pp: "\<forall>pos. unat off \<le> pos \<and> pos < unat off + (c - 0) \<longrightarrow>
            path_present d ip (pos div BSIZE)"
      proof (intro allI impI)
        fix pos assume "unat off \<le> pos \<and> pos < unat off + (c - 0)"
        with cle have "pos < unat (i_size ip)" by simp
        moreover have "pos div BSIZE * BSIZE \<le> pos" by simp
        ultimately have "pos div BSIZE * BSIZE < unat (i_size ip)" by linarith
        with pres show "path_present d ip (pos div BSIZE)" by blast
      qed
      have c64: "c < 2 ^ 64" using \<open>c < 2 ^ 31\<close> by simp
      have "readi_loop memmove_out d ip kmem u dst (unat off) c 0 =
          Inr (d, ip, (\<lambda>a. if unat (a - dst) < c - 0
                then file_byte d ip (unat off + unat (a - dst)) else kmem a), c)"
        using cle sz pp by (intro readi_loop_present [OF _ c64]) simp_all
      with notrej un1 sn1 show ?thesis
        by (simp add: readi_def Let_def flip: n1_def)
    qed
    from first second show ?thesis unfolding c_def by blast
  qed
  from reject accept show ?thesis by blast
qed

theorem readi_range_and_clamp_witness:
  "(100 :: uint) \<le> i_size ex_inode \<and> unat (100 :: uint) + unat (3000 :: uint) < 2 ^ 32
   \<and> unat (i_size ex_inode) \<le> MAXFILE * BSIZE
   \<and> path_present ex_disk ex_inode 0 \<and> path_present ex_disk ex_inode 1
   \<and> readi memmove_out ex_disk ex_inode (\<lambda>_. 0) 0 0 100 3000 =
       Inr (1900, ex_disk, ex_inode,
            (\<lambda>a. if unat a < 1900 then file_byte ex_disk ex_inode (100 + unat a) else 0))"
proof -
  have sz: "i_size ex_inode = 2000" by (simp add: ex_inode_def)
  have pres: "\<forall>bn. bn * BSIZE < unat (i_size ex_inode) \<longrightarrow> path_present ex_disk ex_inode bn"
  proof (intro allI impI)
    fix bn assume "bn * BSIZE < unat (i_size ex_inode)"
    then have "bn < 2" by (simp add: sz BSIZE_def)
    then have "bn = 0 \<or> bn = 1" by auto
    then show "path_present ex_disk ex_inode bn"
      by (auto simp: path_present_def ex_inode_def NDIRECT_def)
  qed
  have m: "unat (i_size ex_inode) \<le> MAXFILE * BSIZE"
    by (simp add: sz MAXFILE_def NINDIRECT_def BSIZE_def NDIRECT_def)
  have h1: "(100 :: uint) \<le> i_size ex_inode" by (simp add: sz)
  have h2: "unat (100 :: uint) + unat (3000 :: uint) < 2 ^ 32" by simp
  have c: "min (unat (3000 :: uint)) (unat (i_size ex_inode) - unat (100 :: uint)) = 1900"
    by (simp add: sz)
  from readi_range_and_clamp [where off = 100 and ip = ex_inode and n = 3000 and d = ex_disk
      and kmem = "\<lambda>_. 0" and dst = 0 and u = 0 and cpout = memmove_out and mem = "\<lambda>_. 0"]
  have "readi memmove_out ex_disk ex_inode (\<lambda>_. 0) 0 0 100 3000 =
       Inr (int (min (unat (3000 :: uint)) (unat (i_size ex_inode) - unat (100 :: uint))), ex_disk, ex_inode,
            (\<lambda>a. if unat (a - 0) < min (unat (3000 :: uint)) (unat (i_size ex_inode) - unat (100 :: uint))
               then file_byte ex_disk ex_inode (unat (100 :: uint) + unat (a - 0)) else 0))"
    using h1 h2 m pres by blast
  then have "readi memmove_out ex_disk ex_inode (\<lambda>_. 0) 0 0 100 3000 =
       Inr (1900, ex_disk, ex_inode,
            (\<lambda>a. if unat a < 1900 then file_byte ex_disk ex_inode (100 + unat a) else 0))"
    unfolding c by (simp cong del: if_weak_cong)
  moreover have "path_present ex_disk ex_inode 0" "path_present ex_disk ex_inode 1"
    using pres by (simp_all add: sz BSIZE_def)
  ultimately show ?thesis using h1 h2 m by blast
qed










lemma bit_bitmask: "bit (bitmask bi) n \<longleftrightarrow> n = bi mod 8"
proof -
  have "bi mod 8 < 8" by simp
  then show ?thesis
    unfolding bitmask_def by (auto simp: bit_exp_iff)
qed

lemma bitmask_nonzero: "bitmask bi \<noteq> 0"
  using bit_bitmask [of bi "bi mod 8"] by auto

lemma bit_free_iff: "bit_free blk bi \<longleftrightarrow> \<not> bit (blk (bi div 8)) (bi mod 8)"
proof -
  have "blk (bi div 8) AND bitmask bi = 0 \<longleftrightarrow> \<not> bit (blk (bi div 8)) (bi mod 8)"
  proof
    assume z: "blk (bi div 8) AND bitmask bi = 0"
    show "\<not> bit (blk (bi div 8)) (bi mod 8)"
    proof
      assume "bit (blk (bi div 8)) (bi mod 8)"
      then have "bit (blk (bi div 8) AND bitmask bi) (bi mod 8)"
        by (simp add: bit_and_iff bit_bitmask)
      with z show False by simp
    qed
  next
    assume n: "\<not> bit (blk (bi div 8)) (bi mod 8)"
    show "blk (bi div 8) AND bitmask bi = 0"
      by (rule bit_word_eqI) (use n in \<open>auto simp: bit_and_iff bit_bitmask\<close>)
  qed
  then show ?thesis by (simp add: bit_free_def)
qed

lemma bit_free_set:
  "bit_free (blk(bi div 8 := blk (bi div 8) OR bitmask bi)) bi' \<longleftrightarrow>
     bit_free blk bi' \<and> \<not> (bi' div 8 = bi div 8 \<and> bi' mod 8 = bi mod 8)"
  by (auto simp: bit_free_iff bit_or_iff bit_bitmask)

lemma div_mod_8_eq: "bi' div 8 = bi div 8 \<and> bi' mod 8 = bi mod 8 \<longleftrightarrow> bi' = (bi :: nat)"
  by (metis div_mult_mod_eq)

lemma balloc_scan_Some:
  "balloc_scan blk sz b bi0 = Some bi \<Longrightarrow>
     bi0 \<le> bi \<and> bi < BPB \<and> b + bi < sz \<and> bit_free blk bi"
proof (induction blk sz b bi0 rule: balloc_scan.induct)
  case (1 blk sz b bi0)
  then show ?case
    by (auto simp: balloc_scan.simps [of blk sz b bi0] split: if_splits)
qed

lemma BPB_pos: "0 < BPB" by (simp add: BPB_def BSIZE_def)

lemma BBLOCK_add: "BPB dvd b \<Longrightarrow> bi < BPB \<Longrightarrow> BBLOCK (b + bi) s = BBLOCK b s"
  by (auto simp: BBLOCK_def elim!: dvdE)

lemma mod_BPB_add: "BPB dvd b \<Longrightarrow> bi < BPB \<Longrightarrow> (b + bi) mod BPB = bi"
  by (auto elim!: dvdE)

lemma balloc_from_Inr:
  assumes "balloc_from held d b = Inr (a, d')" "BPB dvd b"
  shows "\<exists>x. x < unat (sb_size (sb d)) \<and> a = of_nat x \<and> \<not> used d x
           \<and> BBLOCK x (sb d) \<notin> set held \<and> x \<notin> set held
           \<and> d' = d\<lparr>blocks := (blocks d)
                  (BBLOCK x (sb d) := (blocks d (BBLOCK x (sb d)))
                      (x mod BPB div 8 := blocks d (BBLOCK x (sb d)) (x mod BPB div 8)
                                            OR bitmask (x mod BPB)),
                   x := zero_block)\<rparr>"
  using assms
proof (induction held d b rule: balloc_from.induct)
  case (1 held d b)
  let ?sz = "unat (sb_size (sb d))"
  let ?bb = "BBLOCK b (sb d)"
  from "1.prems"(1) have lt: "b < ?sz" and nh: "?bb \<notin> set held"
    by (auto simp: balloc_from.simps [of held d b] split: if_splits)
  show ?case
  proof (cases "balloc_scan (blocks d ?bb) ?sz b 0")
    case None
    with lt nh "1.prems"(1) have no: "\<not> b + BPB \<ge> 2 ^ 31"
      and rec: "balloc_from held d (b + BPB) = Inr (a, d')"
      by (auto simp: balloc_from.simps [of held d b] split: if_splits)
    have "BPB dvd b + BPB" using "1.prems"(2) by simp
    from "1.IH" [OF lt nh None no rec this] show ?thesis .
  next
    case (Some bi)
    from balloc_scan_Some [OF Some] have bi: "bi < BPB" "b + bi < ?sz"
      "bit_free (blocks d ?bb) bi" by simp_all
    have bb: "BBLOCK (b + bi) (sb d) = ?bb" and md: "(b + bi) mod BPB = bi"
      using "1.prems"(2) bi(1) by (simp_all add: BBLOCK_add mod_BPB_add)
    from Some lt nh "1.prems"(1) have e:
      "(case bzero held (d\<lparr>blocks := (blocks d)
                  (?bb := (blocks d ?bb)(bi div 8 := blocks d ?bb (bi div 8) OR bitmask bi))\<rparr>)
                (b + bi) of Inl e \<Rightarrow> Inl e | Inr d2 \<Rightarrow> Inr (of_nat (b + bi), d2)) = Inr (a, d')"
      by (simp add: balloc_from.simps [of held d b] Let_def)
    then have r1: "b + bi \<notin> set held"
      by (auto simp: bzero_def split: if_splits)
    with e have r2: "a = of_nat (b + bi)" and
      r3: "d' = d\<lparr>blocks := (blocks d)
                  (?bb := (blocks d ?bb)(bi div 8 := blocks d ?bb (bi div 8) OR bitmask bi),
                   b + bi := zero_block)\<rparr>"
      by (simp_all add: bzero_def)
    have nu: "\<not> used d (b + bi)" unfolding used_def bb md using bi(3) by simp
    have X: "b + bi < ?sz \<and> a = of_nat (b + bi) \<and> \<not> used d (b + bi)
           \<and> BBLOCK (b + bi) (sb d) \<notin> set held \<and> b + bi \<notin> set held
           \<and> d' = d\<lparr>blocks := (blocks d)
                  (BBLOCK (b + bi) (sb d) := (blocks d (BBLOCK (b + bi) (sb d)))
                      ((b + bi) mod BPB div 8 :=
                           blocks d (BBLOCK (b + bi) (sb d)) ((b + bi) mod BPB div 8)
                                            OR bitmask ((b + bi) mod BPB)),
                   b + bi := zero_block)\<rparr>"
      unfolding bb md
      apply (intro conjI)
           apply (rule bi(2))
          apply (rule r2)
         apply (rule nu)
        apply (rule nh)
       apply (rule r1)
      apply (rule r3)
      done
    show ?thesis by (rule exI [of _ "b + bi"]) (rule X)
  qed
qed

lemma add_mod_cancel:
  fixes a b s M :: nat
  assumes "(a + s) mod M = (b + s) mod M" "a < M" "b < M"
  shows "a = b"
proof (rule ccontr)
  assume ne: "a \<noteq> b"
  have w: "x = y" if "(x + s) mod M = (y + s) mod M" "x < M" "y < M" "x \<le> y" for x y
  proof -
    have "M dvd (y + s) - (x + s)"
      using that by (intro mod_eq_dvd_iff_nat [THEN iffD1]) simp_all
    then have "M dvd y - x" by simp
    moreover have "y - x < M" using that by simp
    ultimately have "y - x = 0" by (meson dvd_imp_le not_less zero_less_iff_neq_zero)
    with that show ?thesis by simp
  qed
  from assms w [of a b] w [of b a] ne show False by (cases "a \<le> b") auto
qed

lemma BBLOCK_eq:
  assumes "BBLOCK x s = BBLOCK y s" "x < 2 ^ 32" "y < 2 ^ 32"
  shows "x div BPB = y div BPB"
proof -
  have "x div BPB \<le> x" "y div BPB \<le> y" by simp_all
  with assms have "x div BPB < 2 ^ 32" "y div BPB < 2 ^ 32" by linarith+
  with assms(1) show ?thesis unfolding BBLOCK_def by (rule add_mod_cancel)
qed

lemma size_bound: "unat (sb_size s) < 2 ^ 32"
  using unsigned_less [of "sb_size s", where 'a = nat] by simp

lemma balloc_effect:
  assumes b: "balloc held d = Inr (a, d')" and ok: "bitmap_ok d"
  shows "unat a < unat (sb_size (sb d))" "\<not> used d (unat a)" "unat a \<notin> bitmap_blocks d"
    "a \<noteq> 0" "unat a \<notin> set held" "sb d' = sb d"
    "blocks d' (unat a) = zero_block"
    "\<And>y. y \<noteq> unat a \<Longrightarrow> y \<notin> bitmap_blocks d \<Longrightarrow> blocks d' y = blocks d y"
    "\<And>y. y \<in> set held \<Longrightarrow> blocks d' y = blocks d y"
    "\<And>y. y < unat (sb_size (sb d)) \<Longrightarrow> used d' y \<longleftrightarrow> used d y \<or> y = unat a"
    "bitmap_blocks d' = bitmap_blocks d" "bitmap_ok d'"
proof -
  let ?sz = "unat (sb_size (sb d))"
  from balloc_from_Inr [OF b [unfolded balloc_def]] obtain x where
    x: "x < ?sz" "a = of_nat x" "\<not> used d x" "BBLOCK x (sb d) \<notin> set held" "x \<notin> set held"
    and d': "d' = d\<lparr>blocks := (blocks d)
                  (BBLOCK x (sb d) := (blocks d (BBLOCK x (sb d)))
                      (x mod BPB div 8 := blocks d (BBLOCK x (sb d)) (x mod BPB div 8)
                                            OR bitmask (x mod BPB)),
                   x := zero_block)\<rparr>"
    by auto
  let ?bb = "BBLOCK x (sb d)"
  have x32: "x < 2 ^ 32" using x(1) size_bound [of "sb d"] by simp
  then have ua: "unat a = x" using x(2) by (simp add: unat_of_nat)
  have bbm: "?bb \<in> bitmap_blocks d" using x(1) by (auto simp: bitmap_blocks_def)
  have xnb: "x \<notin> bitmap_blocks d" using ok x(1,3) by (auto simp: bitmap_ok_def)
  with bbm have xbb: "x \<noteq> ?bb" by auto
  show "unat a < ?sz" "\<not> used d (unat a)" "unat a \<notin> bitmap_blocks d" "unat a \<notin> set held"
    using x xnb ua by simp_all
  from ok x(3) have "x \<noteq> 0" by (auto simp: bitmap_ok_def)
  with ua show "a \<noteq> 0" by auto
  show sb: "sb d' = sb d" by (simp add: d')
  show "blocks d' (unat a) = zero_block" by (simp add: d' ua)
  show "blocks d' y = blocks d y" if "y \<noteq> unat a" "y \<notin> bitmap_blocks d" for y
    using that bbm ua by (auto simp: d')
  show "blocks d' y = blocks d y" if "y \<in> set held" for y
    using that x(4,5) by (auto simp: d')
  show bm: "bitmap_blocks d' = bitmap_blocks d" by (simp add: bitmap_blocks_def sb)
  show u: "used d' y \<longleftrightarrow> used d y \<or> y = unat a" if "y < ?sz" for y
  proof -
    have ybb: "BBLOCK y (sb d) \<in> bitmap_blocks d" using that by (auto simp: bitmap_blocks_def)
    with xnb have ne: "BBLOCK y (sb d) \<noteq> x" by auto
    have y32: "y < 2 ^ 32" using that size_bound [of "sb d"] by simp
    show ?thesis
    proof (cases "BBLOCK y (sb d) = ?bb")
      case True
      then have dv: "y div BPB = x div BPB" using BBLOCK_eq x32 y32 by blast
      have "y mod BPB = x mod BPB \<longleftrightarrow> y = x"
        using dv by (metis div_mult_mod_eq)
      then show ?thesis
        using True ne xbb
        by (simp add: used_def d' sb bit_free_set div_mod_8_eq ua)
    next
      case False
      moreover from x(3) have "y \<noteq> x \<or> \<not> used d y" by auto
      ultimately show ?thesis using ne
        apply (simp add: used_def d' sb ua)
        apply (metis used_def)
        done
    qed
  qed
  show "bitmap_ok d'"
    unfolding bitmap_ok_def bm sb
  proof (intro conjI allI impI)
    have "0 < ?sz" using x(1) by simp
    with u [of 0] ok show "used d' 0" by (simp add: bitmap_ok_def)
    fix bb assume "bb \<in> bitmap_blocks d \<and> bb < ?sz"
    with u [of bb] ok show "used d' bb" by (simp add: bitmap_ok_def)
  qed
qed

lemma rd32_wr32_same: "rd32 (wr32 blk i v) i = v"
proof -
  have "rd32 (wr32 blk i v) i =
      ucast (ucast v :: byte) OR push_bit 8 (ucast (ucast (drop_bit 8 v) :: byte))
       OR push_bit 16 (ucast (ucast (drop_bit 16 v) :: byte))
       OR push_bit 24 (ucast (ucast (drop_bit 24 v) :: byte))"
    by (simp add: rd32_def wr32_def)
  also have "\<dots> = v"
  proof (rule bit_word_eqI)
    fix n assume "n < LENGTH(32)"
    then consider "n < 8" | "8 \<le> n" "n < 16" | "16 \<le> n" "n < 24" | "24 \<le> n" "n < 32"
      by fastforce
    then show "bit ((ucast (ucast v :: byte) :: uint) OR push_bit 8 (ucast (ucast (drop_bit 8 v) :: byte))
       OR push_bit 16 (ucast (ucast (drop_bit 16 v) :: byte))
       OR push_bit 24 (ucast (ucast (drop_bit 24 v) :: byte))) n = bit v n"
      by cases (auto simp: bit_or_iff bit_push_bit_iff bit_ucast_iff bit_drop_bit_eq)
  qed
  finally show ?thesis .
qed

lemma rd32_wr32_other: "i \<noteq> j \<Longrightarrow> rd32 (wr32 blk i v) j = rd32 blk j"
  by (simp add: rd32_def wr32_def)

lemma rd32_wr32: "rd32 (wr32 blk i v) j = (if i = j then v else rd32 blk j)"
  by (simp add: rd32_wr32_same rd32_wr32_other)

lemma rd32_zero [simp]: "rd32 zero_block j = 0"
  by (simp add: rd32_def zero_block_def)

lemma tree_iff: "(c, v) \<in> tree d ip \<longleftrightarrow> cell_live d ip c \<and> v = cell_val d ip c \<and> v \<noteq> 0"
  by (simp add: tree_def)

text \<open>The tree depends on \<^verbatim>\<open>addrs\<close> and on the contents of the blocks of meta cells only.\<close>

lemma cell_frame:
  assumes a: "\<And>i. i < NDIRECT + 2 \<Longrightarrow> i_addrs ip' i = i_addrs ip i"
    and m: "\<And>c v. (c, v) \<in> tree d ip \<Longrightarrow> is_meta c \<Longrightarrow> blocks d' (unat v) = blocks d (unat v)"
  shows "cell_live d' ip' c = cell_live d ip c"
    and "cell_live d ip c \<Longrightarrow> cell_val d' ip' c = cell_val d ip c"
proof -
  have I: "i_addrs ip' NDIRECT = i_addrs ip NDIRECT"
    and D: "i_addrs ip' (NDIRECT + 1) = i_addrs ip (NDIRECT + 1)" by (simp_all add: a)
  have bI: "blocks d' (unat (i_addrs ip NDIRECT)) = blocks d (unat (i_addrs ip NDIRECT))"
    if "i_addrs ip NDIRECT \<noteq> 0"
    using m [of "Addr NDIRECT" "i_addrs ip NDIRECT"] that by (simp add: tree_iff)
  have bD: "blocks d' (unat (i_addrs ip (NDIRECT + 1))) = blocks d (unat (i_addrs ip (NDIRECT + 1)))"
    if "i_addrs ip (NDIRECT + 1) \<noteq> 0"
    using m [of "Addr (NDIRECT + 1)" "i_addrs ip (NDIRECT + 1)"] that by (simp add: tree_iff)
  have bS: "blocks d' (unat (cell_val d ip (Dbl j))) = blocks d (unat (cell_val d ip (Dbl j)))"
    if "j < NINDIRECT" "i_addrs ip (NDIRECT + 1) \<noteq> 0" "cell_val d ip (Dbl j) \<noteq> 0" for j
    using m [of "Dbl j" "cell_val d ip (Dbl j)"] that by (simp add: tree_iff)
  show "cell_live d' ip' c = cell_live d ip c"
    using I D bD by (cases c) (auto simp: a)
  show "cell_val d' ip' c = cell_val d ip c" if "cell_live d ip c"
    using that I D bI bD bS by (cases c) (auto simp: a)
qed

lemma tree_frame:
  assumes "\<And>i. i < NDIRECT + 2 \<Longrightarrow> i_addrs ip' i = i_addrs ip i"
    and "\<And>c v. (c, v) \<in> tree d ip \<Longrightarrow> is_meta c \<Longrightarrow> blocks d' (unat v) = blocks d (unat v)"
  shows "tree d' ip' = tree d ip"
proof -
  have L: "cell_live d' ip' c = cell_live d ip c" for c
    by (rule cell_frame(1)) (fact assms)+
  have V: "cell_val d' ip' c = cell_val d ip c" if "cell_live d ip c" for c
    by (rule cell_frame(2)) (fact assms that)+
  show ?thesis using L V by (auto simp: tree_iff)
qed

lemma tree_inj_ne:
  assumes "tree_ok d ip" "(c1, v1) \<in> tree d ip" "(c2, v2) \<in> tree d ip" "c1 \<noteq> c2"
  shows "unat v1 \<noteq> unat v2"
  using assms unfolding tree_ok_def by (metis unsigned_word_eqI)

lemma tree_addr_upd:
  assumes i: "i < NDIRECT + 2" and z: "i_addrs ip i = 0" and a: "a \<noteq> 0"
    and za: "blocks d' (unat a) = zero_block"
    and m: "\<And>c v. (c, v) \<in> tree d ip \<Longrightarrow> is_meta c \<Longrightarrow> blocks d' (unat v) = blocks d (unat v)"
  shows "tree d' (ip\<lparr>i_addrs := (i_addrs ip)(i := a)\<rparr>) = insert (Addr i, a) (tree d ip)"
proof -
  let ?ip = "ip\<lparr>i_addrs := (i_addrs ip)(i := a)\<rparr>"
  have bI: "blocks d' (unat (i_addrs ip NDIRECT)) = blocks d (unat (i_addrs ip NDIRECT))"
    if "i_addrs ip NDIRECT \<noteq> 0"
    using m [of "Addr NDIRECT" "i_addrs ip NDIRECT"] that by (simp add: tree_iff)
  have bD: "blocks d' (unat (i_addrs ip (NDIRECT + 1))) = blocks d (unat (i_addrs ip (NDIRECT + 1)))"
    if "i_addrs ip (NDIRECT + 1) \<noteq> 0"
    using m [of "Addr (NDIRECT + 1)" "i_addrs ip (NDIRECT + 1)"] that by (simp add: tree_iff)
  have bS: "blocks d' (unat (cell_val d ip (Dbl j))) = blocks d (unat (cell_val d ip (Dbl j)))"
    if "j < NINDIRECT" "i_addrs ip (NDIRECT + 1) \<noteq> 0" "cell_val d ip (Dbl j) \<noteq> 0" for j
    using m [of "Dbl j" "cell_val d ip (Dbl j)"] that by (simp add: tree_iff)
  have "(c, v) \<in> tree d' ?ip \<longleftrightarrow> (c, v) = (Addr i, a) \<or> (c, v) \<in> tree d ip" for c v
  proof (cases c)
    case (Addr k)
    then show ?thesis using i z a by (auto simp: tree_iff)
  next
    case (Ind j)
    then show ?thesis using z a za bI by (cases "i = NDIRECT") (auto simp: tree_iff)
  next
    case (Dbl j)
    then show ?thesis using z a za bD by (cases "i = NDIRECT + 1") (auto simp: tree_iff)
  next
    case (Leaf j k)
    show ?thesis
    proof (cases "i = NDIRECT + 1")
      case True
      with Leaf z a za show ?thesis by (auto simp: tree_iff)
    next
      case False
      with Leaf z a bD bS [of j] show ?thesis by (auto simp: tree_iff)
    qed
  qed
  then show ?thesis by auto
qed

lemma tree_ind_upd:
  assumes ok: "tree_ok d ip" and I: "i_addrs ip NDIRECT \<noteq> 0" and j0: "j0 < NINDIRECT"
    and z: "cell_val d ip (Ind j0) = 0" and a: "a \<noteq> 0"
    and w: "blocks d' (unat (i_addrs ip NDIRECT)) = wr32 (blocks d (unat (i_addrs ip NDIRECT))) j0 a"
    and m: "\<And>c v. (c, v) \<in> tree d ip \<Longrightarrow> is_meta c \<Longrightarrow> unat v \<noteq> unat (i_addrs ip NDIRECT)
              \<Longrightarrow> blocks d' (unat v) = blocks d (unat v)"
  shows "tree d' ip = insert (Ind j0, a) (tree d ip)"
proof -
  have tI: "(Addr NDIRECT, i_addrs ip NDIRECT) \<in> tree d ip" using I by (simp add: tree_iff)
  have bD: "blocks d' (unat (i_addrs ip (NDIRECT + 1))) = blocks d (unat (i_addrs ip (NDIRECT + 1)))"
    if "i_addrs ip (NDIRECT + 1) \<noteq> 0"
  proof -
    have t: "(Addr (NDIRECT + 1), i_addrs ip (NDIRECT + 1)) \<in> tree d ip"
      using that by (simp add: tree_iff)
    from tree_inj_ne [OF ok t tI] m [OF t] show ?thesis by simp
  qed
  have bS: "blocks d' (unat (cell_val d ip (Dbl j))) = blocks d (unat (cell_val d ip (Dbl j)))"
    if "j < NINDIRECT" "i_addrs ip (NDIRECT + 1) \<noteq> 0" "cell_val d ip (Dbl j) \<noteq> 0" for j
  proof -
    have t: "(Dbl j, cell_val d ip (Dbl j)) \<in> tree d ip"
      using that by (simp add: tree_iff)
    from tree_inj_ne [OF ok t tI] m [OF t] show ?thesis by simp
  qed
  have "(c, v) \<in> tree d' ip \<longleftrightarrow> (c, v) = (Ind j0, a) \<or> (c, v) \<in> tree d ip" for c v
  proof (cases c)
    case (Addr k)
    then show ?thesis by (auto simp: tree_iff)
  next
    case (Ind j)
    then show ?thesis using I j0 z a w by (auto simp: tree_iff rd32_wr32)
  next
    case (Dbl j)
    then show ?thesis using bD by (auto simp: tree_iff)
  next
    case (Leaf j k)
    then show ?thesis using bD bS [of j] by (auto simp: tree_iff)
  qed
  then show ?thesis by auto
qed

lemma tree_dbl_upd:
  assumes ok: "tree_ok d ip" and D: "i_addrs ip (NDIRECT + 1) \<noteq> 0" and j0: "j0 < NINDIRECT"
    and z: "cell_val d ip (Dbl j0) = 0" and a: "a \<noteq> 0"
    and w: "blocks d' (unat (i_addrs ip (NDIRECT + 1)))
              = wr32 (blocks d (unat (i_addrs ip (NDIRECT + 1)))) j0 a"
    and za: "blocks d' (unat a) = zero_block"
    and m: "\<And>c v. (c, v) \<in> tree d ip \<Longrightarrow> is_meta c
              \<Longrightarrow> unat v \<noteq> unat (i_addrs ip (NDIRECT + 1))
              \<Longrightarrow> blocks d' (unat v) = blocks d (unat v)"
  shows "tree d' ip = insert (Dbl j0, a) (tree d ip)"
proof -
  have tD: "(Addr (NDIRECT + 1), i_addrs ip (NDIRECT + 1)) \<in> tree d ip"
    using D by (simp add: tree_iff)
  have bI: "blocks d' (unat (i_addrs ip NDIRECT)) = blocks d (unat (i_addrs ip NDIRECT))"
    if "i_addrs ip NDIRECT \<noteq> 0"
  proof -
    have t: "(Addr NDIRECT, i_addrs ip NDIRECT) \<in> tree d ip"
      using that by (simp add: tree_iff)
    from tree_inj_ne [OF ok t tD] m [OF t] show ?thesis by simp
  qed
  have bS: "blocks d' (unat (cell_val d ip (Dbl j))) = blocks d (unat (cell_val d ip (Dbl j)))"
    if "j < NINDIRECT" "cell_val d ip (Dbl j) \<noteq> 0" for j
  proof -
    have t: "(Dbl j, cell_val d ip (Dbl j)) \<in> tree d ip"
      using that D by (simp add: tree_iff)
    from tree_inj_ne [OF ok t tD] m [OF t] show ?thesis by simp
  qed
  have v': "cell_val d' ip (Dbl j) = (if j = j0 then a else cell_val d ip (Dbl j))" for j
    using w by (simp add: rd32_wr32)
  have "(c, v) \<in> tree d' ip \<longleftrightarrow> (c, v) = (Dbl j0, a) \<or> (c, v) \<in> tree d ip" for c v
  proof (cases c)
    case (Addr k)
    then show ?thesis by (auto simp: tree_iff)
  next
    case (Ind j)
    then show ?thesis using bI by (auto simp: tree_iff)
  next
    case (Dbl j)
    then show ?thesis using D j0 z a v' by (auto simp: tree_iff)
  next
    case (Leaf j k)
    show ?thesis
    proof (cases "j = j0")
      case True
      with Leaf z a za w show ?thesis by (auto simp: tree_iff rd32_wr32)
    next
      case False
      with Leaf bS [of j] w show ?thesis by (auto simp: tree_iff rd32_wr32)
    qed
  qed
  then show ?thesis by auto
qed

lemma tree_leaf_upd:
  assumes ok: "tree_ok d ip" and live: "cell_live d ip (Leaf j0 i0)"
    and z: "cell_val d ip (Leaf j0 i0) = 0" and a: "a \<noteq> 0"
    and w: "blocks d' (unat (cell_val d ip (Dbl j0)))
              = wr32 (blocks d (unat (cell_val d ip (Dbl j0)))) i0 a"
    and m: "\<And>c v. (c, v) \<in> tree d ip \<Longrightarrow> is_meta c
              \<Longrightarrow> unat v \<noteq> unat (cell_val d ip (Dbl j0))
              \<Longrightarrow> blocks d' (unat v) = blocks d (unat v)"
  shows "tree d' ip = insert (Leaf j0 i0, a) (tree d ip)"
proof -
  from live have D: "i_addrs ip (NDIRECT + 1) \<noteq> 0" and j0: "j0 < NINDIRECT"
    and i0: "i0 < NINDIRECT" and S: "cell_val d ip (Dbl j0) \<noteq> 0" by simp_all
  have tS: "(Dbl j0, cell_val d ip (Dbl j0)) \<in> tree d ip"
    using D j0 S by (simp add: tree_iff)
  have tD: "(Addr (NDIRECT + 1), i_addrs ip (NDIRECT + 1)) \<in> tree d ip"
    using D by (simp add: tree_iff)
  have bD: "blocks d' (unat (i_addrs ip (NDIRECT + 1))) = blocks d (unat (i_addrs ip (NDIRECT + 1)))"
    using tree_inj_ne [OF ok tD tS] m [OF tD] by simp
  have bI: "blocks d' (unat (i_addrs ip NDIRECT)) = blocks d (unat (i_addrs ip NDIRECT))"
    if "i_addrs ip NDIRECT \<noteq> 0"
  proof -
    have t: "(Addr NDIRECT, i_addrs ip NDIRECT) \<in> tree d ip"
      using that by (simp add: tree_iff)
    from tree_inj_ne [OF ok t tS] m [OF t] show ?thesis by simp
  qed
  have bS: "blocks d' (unat (cell_val d ip (Dbl j))) = blocks d (unat (cell_val d ip (Dbl j)))"
    if "j < NINDIRECT" "cell_val d ip (Dbl j) \<noteq> 0" "j \<noteq> j0" for j
  proof -
    have t: "(Dbl j, cell_val d ip (Dbl j)) \<in> tree d ip"
      using that D by (simp add: tree_iff)
    from tree_inj_ne [OF ok t tS] that m [OF t] show ?thesis by simp
  qed
  have vD: "cell_val d' ip (Dbl j) = cell_val d ip (Dbl j)" for j
    using bD by simp
  have "(c, v) \<in> tree d' ip \<longleftrightarrow> (c, v) = (Leaf j0 i0, a) \<or> (c, v) \<in> tree d ip" for c v
  proof (cases c)
    case (Addr k)
    then show ?thesis by (auto simp: tree_iff)
  next
    case (Ind j)
    then show ?thesis using bI by (auto simp: tree_iff)
  next
    case (Dbl j)
    then show ?thesis using bD by (auto simp: tree_iff)
  next
    case (Leaf j k)
    show ?thesis
    proof (cases "j = j0")
      case True
      with Leaf D j0 i0 S z a w bD show ?thesis by (auto simp: tree_iff rd32_wr32)
    next
      case False
      with Leaf bS [of j] bD show ?thesis by (auto simp: tree_iff)
    qed
  qed
  then show ?thesis by auto
qed

lemma used_frame:
  assumes sb: "sb d' = sb d" and pos: "0 < unat (sb_size (sb d))"
    and bm: "\<And>bb. bb \<in> bitmap_blocks d \<Longrightarrow> blocks d' bb = blocks d bb"
  shows "bitmap_blocks d' = bitmap_blocks d"
    and "\<And>y. y < unat (sb_size (sb d)) \<Longrightarrow> used d' y = used d y"
    and "bitmap_ok d \<Longrightarrow> bitmap_ok d'"
    and "\<And>y. safe d y \<Longrightarrow> safe d' y"
proof -
  show b: "bitmap_blocks d' = bitmap_blocks d" by (simp add: bitmap_blocks_def sb)
  show u: "used d' y = used d y" if "y < unat (sb_size (sb d))" for y
  proof -
    have "BBLOCK y (sb d) \<in> bitmap_blocks d" using that by (auto simp: bitmap_blocks_def)
    then show ?thesis by (simp add: used_def sb bm)
  qed
  show "bitmap_ok d'" if "bitmap_ok d"
    using that u [OF pos] u by (auto simp: bitmap_ok_def b sb)
  show "safe d' y" if "safe d y" for y
    using that u [of y] by (simp add: safe_def b sb)
qed

lemma alloc_step_ok:
  assumes ok: "tree_ok d ip" and t: "tree d' ip' = insert (c, a) (tree d ip)"
    and sb: "sb d' = sb d" and bb: "bitmap_blocks d' = bitmap_blocks d" and bo: "bitmap_ok d'"
    and mono: "\<And>y. safe d y \<Longrightarrow> safe d' y"
    and new: "(c, a) \<notin> tree d ip \<Longrightarrow> safe d' (unat a) \<and> \<not> used d (unat a)"
  shows "tree_ok d' ip'"
  unfolding tree_ok_def
proof (intro conjI allI impI)
  show "bitmap_ok d'" by fact
  fix c' v assume "(c', v) \<in> tree d' ip'"
  then show "safe d' (unat v)"
    using t ok mono new by (auto simp: tree_ok_def)
next
  fix c1 c2 v assume "(c1, v) \<in> tree d' ip' \<and> (c2, v) \<in> tree d' ip'"
  then have m: "(c1, v) = (c, a) \<or> (c1, v) \<in> tree d ip" "(c2, v) = (c, a) \<or> (c2, v) \<in> tree d ip"
    using t by auto
  have old: "used d (unat v')" if "(c', v') \<in> tree d ip" for c' v'
    using ok that by (auto simp: tree_ok_def safe_def)
  show "c1 = c2"
  proof (cases "(c, a) \<in> tree d ip")
    case True
    with m have "(c1, v) \<in> tree d ip" "(c2, v) \<in> tree d ip" by auto
    with ok show ?thesis unfolding tree_ok_def by blast
  next
    case False
    with new have nu: "\<not> used d (unat a)" by simp
    from m show ?thesis
    proof (elim disjE)
      assume "(c1, v) \<in> tree d ip" "(c2, v) \<in> tree d ip"
      with ok show ?thesis unfolding tree_ok_def by blast
    qed (use nu old in auto)
  qed
qed

lemma tree_ok_safe: "tree_ok d ip \<Longrightarrow> (c, v) \<in> tree d ip \<Longrightarrow> safe d (unat v)"
  unfolding tree_ok_def by blast

lemma safe_not_bitmap: "safe d y \<Longrightarrow> y \<notin> bitmap_blocks d"
  by (simp add: safe_def)

lemma bmap_addr_step:
  assumes ok: "tree_ok d ip" and i: "i < NDIRECT + 2"
    and r: "bmap_addr d ip i = Inr (a, d', ip')"
  shows "a \<noteq> 0" "i_addrs ip' i = a" "tree_ok d' ip'"
    "tree d' ip' = insert (Addr i, a) (tree d ip)"
    "\<And>y. safe d y \<Longrightarrow> safe d' y \<and> blocks d' y = blocks d y"
    "(Addr i, a) \<notin> tree d ip \<Longrightarrow> \<not> used d (unat a) \<and> used d' (unat a)"
    "sb d' = sb d" "same_but_addrs ip ip'"
proof -
  have bo: "bitmap_ok d" using ok by (simp add: tree_ok_def)
  have all: "a \<noteq> 0 \<and> i_addrs ip' i = a \<and> tree_ok d' ip'
    \<and> tree d' ip' = insert (Addr i, a) (tree d ip)
    \<and> (\<forall>y. safe d y \<longrightarrow> safe d' y \<and> blocks d' y = blocks d y)
    \<and> ((Addr i, a) \<notin> tree d ip \<longrightarrow> \<not> used d (unat a) \<and> used d' (unat a))
    \<and> sb d' = sb d \<and> same_but_addrs ip ip'"
  proof (cases "i_addrs ip i = 0")
    case False
    with r have e: "a = i_addrs ip i" "d' = d" "ip' = ip" by (auto simp: bmap_addr_def)
    with False i have m: "(Addr i, a) \<in> tree d ip" by (simp add: tree_iff)
    then have "tree d ip = insert (Addr i, a) (tree d ip)" by auto
    with e False ok m show ?thesis by simp
  next
    case True
    with r obtain d1 where b: "balloc [] d = Inr (a, d1)" and e: "d' = d1"
      "ip' = ip\<lparr>i_addrs := (i_addrs ip)(i := a)\<rparr>"
      by (auto simp: bmap_addr_def split: sum.splits)
    note be = balloc_effect [OF b bo]
    have fr: "blocks d' y = blocks d y" if "safe d y" for y
      using be(8) [of y] that be(2) by (auto simp: e safe_def)
    have sf: "safe d' y" if "safe d y" for y
      using that be(10) [of y] be(6,11) by (auto simp: safe_def e)
    have t: "tree d' ip' = insert (Addr i, a) (tree d ip)"
      unfolding e(2)
    proof (rule tree_addr_upd [OF i True be(4)])
      show "blocks d' (unat a) = zero_block" using be(7) by (simp add: e)
      fix c v assume "(c, v) \<in> tree d ip"
      from fr [OF tree_ok_safe [OF ok this]] show "blocks d' (unat v) = blocks d (unat v)" .
    qed
    have na: "safe d' (unat a)" "used d' (unat a)"
      using be(1,3,6,11) be(10) [of "unat a"] by (simp_all add: safe_def e)
    have "tree_ok d' ip'"
      by (rule alloc_step_ok [OF ok t]) (use na be sf in \<open>simp_all add: e\<close>)
    with t fr sf na be show ?thesis by (simp add: e)
  qed
  from all show "a \<noteq> 0" "i_addrs ip' i = a" "tree_ok d' ip'"
    "tree d' ip' = insert (Addr i, a) (tree d ip)"
    "\<And>y. safe d y \<Longrightarrow> safe d' y \<and> blocks d' y = blocks d y"
    "(Addr i, a) \<notin> tree d ip \<Longrightarrow> \<not> used d (unat a) \<and> used d' (unat a)"
    "sb d' = sb d" "same_but_addrs ip ip'" by blast+
qed

lemma cell_val_parent:
  "in_block c \<Longrightarrow> cell_val d ip c = rd32 (blocks d (cell_parent d ip c)) (cell_index c)"
  by (cases c) simp_all

lemma cell_parent_safe:
  assumes "tree_ok d ip" "cell_live d ip c" "in_block c"
  shows "safe d (cell_parent d ip c)"
proof (cases c)
  case (Addr i)
  with assms show ?thesis by simp
next
  case (Ind j)
  with assms have "(Addr NDIRECT, i_addrs ip NDIRECT) \<in> tree d ip" by (simp add: tree_iff)
  from tree_ok_safe [OF assms(1) this] Ind show ?thesis by simp
next
  case (Dbl j)
  with assms have "(Addr (NDIRECT + 1), i_addrs ip (NDIRECT + 1)) \<in> tree d ip"
    by (simp add: tree_iff)
  from tree_ok_safe [OF assms(1) this] Dbl show ?thesis by simp
next
  case (Leaf j i)
  with assms have "(Dbl j, cell_val d ip (Dbl j)) \<in> tree d ip" by (simp add: tree_iff)
  from tree_ok_safe [OF assms(1) this] Leaf show ?thesis by simp
qed

lemma bmap_cell_step:
  assumes ok: "tree_ok d ip" and live: "cell_live d ip c" and nb: "in_block c"
    and r: "bmap_cell d (cell_parent d ip c) (cell_index c) = Inr (a, d')"
  shows "a \<noteq> 0" "cell_val d' ip c = a" "tree_ok d' ip"
    "tree d' ip = insert (c, a) (tree d ip)"
    "\<And>y. safe d y \<Longrightarrow> safe d' y \<and> (y \<noteq> cell_parent d ip c \<longrightarrow> blocks d' y = blocks d y)"
    "(c, a) \<notin> tree d ip \<Longrightarrow> \<not> used d (unat a) \<and> used d' (unat a)"
    "sb d' = sb d"
proof -
  let ?P = "cell_parent d ip c"
  let ?i = "cell_index c"
  have bo: "bitmap_ok d" using ok by (simp add: tree_ok_def)
  have sP: "safe d ?P" by (rule cell_parent_safe [OF ok live nb])
  have all: "a \<noteq> 0 \<and> cell_val d' ip c = a \<and> tree_ok d' ip
    \<and> tree d' ip = insert (c, a) (tree d ip)
    \<and> (\<forall>y. safe d y \<longrightarrow> safe d' y \<and> (y \<noteq> ?P \<longrightarrow> blocks d' y = blocks d y))
    \<and> ((c, a) \<notin> tree d ip \<longrightarrow> \<not> used d (unat a) \<and> used d' (unat a))
    \<and> sb d' = sb d"
  proof (cases "cell_val d ip c = 0")
    case False
    then have nz: "rd32 (blocks d ?P) ?i \<noteq> 0" using nb by (simp add: cell_val_parent)
    with r have e: "a = cell_val d ip c" "d' = d"
      using nb by (auto simp: bmap_cell_def cell_val_parent)
    with False live have m: "(c, a) \<in> tree d ip" by (simp add: tree_iff)
    then have "tree d ip = insert (c, a) (tree d ip)" by auto
    with e False ok m show ?thesis by simp
  next
    case True
    then have z: "rd32 (blocks d ?P) ?i = 0" using nb by (simp add: cell_val_parent)
    with r obtain d1 where b: "balloc [?P] d = Inr (a, d1)"
      and e: "d' = d1\<lparr>blocks := (blocks d1)(?P := wr32 (blocks d1 ?P) ?i a)\<rparr>"
      by (auto simp: bmap_cell_def split: sum.splits)
    note be = balloc_effect [OF b bo]
    have aP: "unat a \<noteq> ?P" using be(5) by simp
    have P1: "blocks d1 ?P = blocks d ?P" using be(9) by simp
    have w: "blocks d' ?P = wr32 (blocks d ?P) ?i a" by (simp add: e P1)
    have za: "blocks d' (unat a) = zero_block" using aP be(7) by (simp add: e)
    have fr: "blocks d' y = blocks d y" if "safe d y" "y \<noteq> ?P" for y
      using be(8) [of y] that be(2) by (auto simp: e safe_def)
    have pos: "0 < unat (sb_size (sb d1))" using be(1,6) by simp
    have Pnb: "?P \<notin> bitmap_blocks d1" using sP be(11) by (simp add: safe_def)
    have sb1: "sb d' = sb d1" by (simp add: e)
    have bm1: "blocks d' bb = blocks d1 bb" if "bb \<in> bitmap_blocks d1" for bb
      using that Pnb by (auto simp: e)
    have uf1: "bitmap_blocks d' = bitmap_blocks d1"
      by (rule used_frame(1) [of d' d1, OF sb1 pos bm1])
    have uf3: "bitmap_ok d'" if "bitmap_ok d1"
      by (rule used_frame(3) [of d' d1, OF sb1 pos bm1 that])
    have uf4: "safe d' y" if "safe d1 y" for y
      by (rule used_frame(4) [of d' d1, OF sb1 pos bm1 that])
    have sf1: "safe d1 y" if "safe d y" for y
      using that be(10) [of y] be(6,11) by (auto simp: safe_def)
    have sf: "safe d' y" if "safe d y" for y
      using sf1 [OF that] uf4 by simp
    have m: "blocks d' (unat v) = blocks d (unat v)"
      if "(c', v) \<in> tree d ip" "unat v \<noteq> ?P" for c' v
      using fr [OF tree_ok_safe [OF ok that(1)] that(2)] .
    have t: "tree d' ip = insert (c, a) (tree d ip)"
    proof (cases c)
      case (Addr i)
      with nb show ?thesis by simp
    next
      case (Ind j)
      show ?thesis unfolding Ind
        using ok live True w m unfolding Ind
        by (intro tree_ind_upd) (simp_all add: be(4))
    next
      case (Dbl j)
      show ?thesis unfolding Dbl
        using ok live True w m za unfolding Dbl
        by (intro tree_dbl_upd) (simp_all add: be(4))
    next
      case (Leaf j i)
      show ?thesis unfolding Leaf
        using ok live True w m unfolding Leaf
        by (intro tree_leaf_upd) (simp_all add: be(4))
    qed
    have na: "safe d' (unat a)" "used d' (unat a)"
    proof -
      have "safe d1 (unat a)" using be(1,3,6,11) be(10) [of "unat a"] by (simp add: safe_def)
      then show "safe d' (unat a)" by (rule uf4)
      then show "used d' (unat a)" by (simp add: safe_def)
    qed
    have sb: "sb d' = sb d" using be(6) by (simp_all add: e)
    have "tree_ok d' ip"
      by (rule alloc_step_ok [OF ok t]) (use na be sf sb uf1 uf3 in \<open>simp_all\<close>)
    moreover have "cell_val d' ip c = a"
    proof -
      have "(c, a) \<in> tree d' ip" unfolding t by simp
      then show ?thesis by (simp add: tree_iff)
    qed
    ultimately show ?thesis using t fr sf na be sb by simp
  qed
  from all show "a \<noteq> 0" "cell_val d' ip c = a" "tree_ok d' ip"
    "tree d' ip = insert (c, a) (tree d ip)"
    "\<And>y. safe d y \<Longrightarrow> safe d' y \<and> (y \<noteq> cell_parent d ip c \<longrightarrow> blocks d' y = blocks d y)"
    "(c, a) \<notin> tree d ip \<Longrightarrow> \<not> used d (unat a) \<and> used d' (unat a)"
    "sb d' = sb d" by blast+
qed

lemma grows_refl: "tree_ok d ip \<Longrightarrow> grows d ip d ip C"
  by (simp add: grows_def)

lemma grows_mono: "grows d ip d' ip' C \<Longrightarrow> C \<subseteq> C' \<Longrightarrow> grows d ip d' ip' C'"
  unfolding grows_def by blast

lemma bitmap_blocks_sb: "sb d' = sb d \<Longrightarrow> bitmap_blocks d' = bitmap_blocks d"
  by (simp add: bitmap_blocks_def)

lemma grows_trans:
  assumes a: "grows d ip d1 ip1 C1" and b: "grows d1 ip1 d2 ip2 C2"
  shows "grows d ip d2 ip2 (C1 \<union> C2)"
  unfolding grows_def
proof (intro conjI allI impI)
  show "tree_ok d2 ip2" using b by (simp add: grows_def)
  show "tree d ip \<subseteq> tree d2 ip2" using a b unfolding grows_def by blast
  show sb: "sb d2 = sb d" using a b by (simp add: grows_def)
  show "same_but_addrs ip ip2" using a b unfolding grows_def by (blast intro: same_but_addrs_trans)
  show "safe d2 y" if "safe d y" for y using that a b by (simp add: grows_def)
  show "blocks d2 (unat v) = blocks d (unat v)" if "(c, v) \<in> tree d ip \<and> \<not> is_meta c" for c v
  proof -
    from that a have "blocks d1 (unat v) = blocks d (unat v)" "(c, v) \<in> tree d1 ip1"
      unfolding grows_def by blast+
    with that b show ?thesis unfolding grows_def by metis
  qed
  fix c v assume n: "(c, v) \<in> tree d2 ip2 \<and> (c, v) \<notin> tree d ip"
  show "c \<in> C1 \<union> C2" using n a b unfolding grows_def by blast
  show "\<not> used d (unat v)"
  proof (cases "(c, v) \<in> tree d1 ip1")
    case True
    with n a show ?thesis unfolding grows_def by blast
  next
    case False
    with n b have nu: "\<not> used d1 (unat v)" unfolding grows_def by blast
    from n b have "safe d2 (unat v)" unfolding grows_def by (blast intro: tree_ok_safe)
    then have "unat v < unat (sb_size (sb d))" "unat v \<notin> bitmap_blocks d"
      using sb bitmap_blocks_sb [OF sb] by (simp_all add: safe_def)
    then have "used d (unat v) \<Longrightarrow> safe d (unat v)" by (simp add: safe_def)
    with a have "used d (unat v) \<Longrightarrow> used d1 (unat v)" unfolding grows_def safe_def by blast
    with nu show ?thesis by blast
  qed
qed

lemma bmap_addr_grows:
  assumes ok: "tree_ok d ip" and i: "i < NDIRECT + 2"
    and r: "bmap_addr d ip i = Inr (a, d', ip')"
  shows "grows d ip d' ip' {Addr i}"
  unfolding grows_def
  using bmap_addr_step [OF ok i r] tree_ok_safe [OF ok] by auto

lemma cell_parent_tree:
  assumes "cell_live d ip c" "in_block c"
  shows "\<exists>m v. is_meta m \<and> (m, v) \<in> tree d ip \<and> unat v = cell_parent d ip c"
proof (cases c)
  case (Addr i)
  with assms show ?thesis by simp
next
  case (Ind j)
  with assms have "is_meta (Addr NDIRECT) \<and> (Addr NDIRECT, i_addrs ip NDIRECT) \<in> tree d ip
    \<and> unat (i_addrs ip NDIRECT) = cell_parent d ip c" by (simp add: tree_iff)
  then show ?thesis by blast
next
  case (Dbl j)
  with assms have "is_meta (Addr (NDIRECT + 1))
    \<and> (Addr (NDIRECT + 1), i_addrs ip (NDIRECT + 1)) \<in> tree d ip
    \<and> unat (i_addrs ip (NDIRECT + 1)) = cell_parent d ip c" by (simp add: tree_iff)
  then show ?thesis by blast
next
  case (Leaf j i)
  with assms have "is_meta (Dbl j) \<and> (Dbl j, cell_val d ip (Dbl j)) \<in> tree d ip
    \<and> unat (cell_val d ip (Dbl j)) = cell_parent d ip c" by (simp add: tree_iff)
  then show ?thesis by blast
qed

lemma bmap_cell_grows:
  assumes ok: "tree_ok d ip" and live: "cell_live d ip c" and nb: "in_block c"
    and r: "bmap_cell d (cell_parent d ip c) (cell_index c) = Inr (a, d')"
  shows "grows d ip d' ip {c}"
proof -
  note st = bmap_cell_step [OF ok live nb r]
  from cell_parent_tree [OF live nb] obtain m pv where
    m: "is_meta m" "(m, pv) \<in> tree d ip" "unat pv = cell_parent d ip c" by blast
  have data: "blocks d' (unat v) = blocks d (unat v)"
    if "(c', v) \<in> tree d ip" "\<not> is_meta c'" for c' v
  proof -
    from that m have "c' \<noteq> m" by auto
    from tree_inj_ne [OF ok that(1) m(2) this] m(3) have "unat v \<noteq> cell_parent d ip c" by simp
    with st(5) [OF tree_ok_safe [OF ok that(1)]] show ?thesis by simp
  qed
  show ?thesis
    unfolding grows_def
    using st data by auto
qed

lemma blk_of_cell: "blk_of d ip bn = cell_val d ip (last (path_cells bn))"
  by (simp add: blk_of_def path_cells_def Let_def)

lemma path_present_cells:
  assumes "bn < MAXFILE"
  shows "path_present d ip bn \<longleftrightarrow>
    (\<forall>c \<in> set (path_cells bn). cell_live d ip c \<and> cell_val d ip c \<noteq> 0)"
proof -
  consider "bn < NDIRECT" | "\<not> bn < NDIRECT" "bn < NDIRECT + NINDIRECT"
    | "\<not> bn < NDIRECT + NINDIRECT" by linarith
  then show ?thesis
  proof cases
    case 1
    then show ?thesis by (simp add: path_present_def path_cells_def)
  next
    case 2
    then have "bn - NDIRECT < NINDIRECT" by simp
    with 2 show ?thesis by (auto simp: path_present_def path_cells_def blk_of_def)
  next
    case 3
    have "(bn - NDIRECT - NINDIRECT) mod NINDIRECT < NINDIRECT"
      using NINDIRECT_pos by simp
    with 3 dbl_index [OF assms] show ?thesis
      by (auto simp: path_present_def path_cells_def blk_of_def Let_def)
  qed
qed

lemma bmap_grows:
  assumes ok: "tree_ok d ip" and bn: "bn < MAXFILE"
    and r: "bmap d ip (of_nat bn) = Inr (a, d', ip')"
  shows "grows d ip d' ip' (set (path_cells bn))" "a \<noteq> 0"
    "path_present d' ip' bn" "blk_of d' ip' bn = a"
proof -
  have u: "unat (of_nat bn :: uint) = bn" by (rule unat_of_nat_bn [OF bn])
  consider "bn < NDIRECT" | "\<not> bn < NDIRECT" "bn < NDIRECT + NINDIRECT"
    | "\<not> bn < NDIRECT + NINDIRECT" by linarith
  then have "grows d ip d' ip' (set (path_cells bn)) \<and> a \<noteq> 0
    \<and> (\<forall>c \<in> set (path_cells bn). cell_live d' ip' c \<and> cell_val d' ip' c \<noteq> 0)
    \<and> cell_val d' ip' (last (path_cells bn)) = a"
  proof cases
    case 1
    with r have r1: "bmap_addr d ip bn = Inr (a, d', ip')" by (simp add: bmap_def u)
    from 1 have i: "bn < NDIRECT + 2" by simp
    from bmap_addr_grows [OF ok i r1] bmap_addr_step(1,2) [OF ok i r1] 1 i
    show ?thesis by (simp add: path_cells_def)
  next
    case 2
    define j where "j = bn - NDIRECT"
    have j: "j < NINDIRECT" using 2 by (simp add: j_def)
    from r 2 j obtain I d1 ip1 where
      r1: "bmap_addr d ip NDIRECT = Inr (I, d1, ip1)"
      and r2: "bmap_cell d1 (unat I) j = Inr (a, d')" and e: "ip' = ip1"
      by (auto simp: bmap_def u Let_def j_def split: sum.splits)
    have i: "NDIRECT < NDIRECT + 2" by simp
    note s1 = bmap_addr_step [OF ok i r1]
    note g1 = bmap_addr_grows [OF ok i r1]
    have live: "cell_live d1 ip1 (Ind j)" using j s1(1,2) by auto
    have r2': "bmap_cell d1 (cell_parent d1 ip1 (Ind j)) (cell_index (Ind j)) = Inr (a, d')"
      using r2 s1(2) by auto
    have ib: "in_block (Ind j)" by simp
    note s2 = bmap_cell_step [OF s1(3) live ib r2']
    note g2 = bmap_cell_grows [OF s1(3) live ib r2']
    have g: "grows d ip d' ip1 {Addr NDIRECT, Ind j}"
      by (rule grows_mono [OF grows_trans [OF g1 g2]]) auto
    have "(Addr NDIRECT, I) \<in> tree d' ip1"
      using s1(4) s2(4) by simp
    then have "cell_live d' ip1 (Addr NDIRECT) \<and> cell_val d' ip1 (Addr NDIRECT) \<noteq> 0"
      by (auto simp: tree_iff)
    moreover have "(Ind j, a) \<in> tree d' ip1" using s2(4) by simp
    then have "cell_live d' ip1 (Ind j) \<and> cell_val d' ip1 (Ind j) = a \<and> a \<noteq> 0"
      by (auto simp: tree_iff)
    ultimately show ?thesis using g 2 unfolding e
      by (simp add: path_cells_def flip: j_def)
  next
    case 3
    define k where "k = bn - NDIRECT - NINDIRECT"
    define j where "j = k div NINDIRECT"
    define i where "i = k mod NINDIRECT"
    have j: "j < NINDIRECT" using dbl_index [OF bn 3] by (simp add: j_def k_def)
    have il: "i < NINDIRECT" using NINDIRECT_pos by (simp add: i_def)
    have k': "bn - NDIRECT - NINDIRECT = k" "bn - (NDIRECT + NINDIRECT) = k" by (simp_all add: k_def)
    from 3 have n1: "\<not> bn < NDIRECT" "\<not> bn - NDIRECT < NINDIRECT" by simp_all
    from r n1 j obtain D d1 ip1 S d2 where
      r1: "bmap_addr d ip (NDIRECT + 1) = Inr (D, d1, ip1)"
      and r2: "bmap_cell d1 (unat D) j = Inr (S, d2)"
      and r3: "bmap_cell d2 (unat (rd32 (blocks d2 (unat D)) j)) i = Inr (a, d')"
      and e: "ip' = ip1"
      by (auto simp: bmap_def u Let_def k' split: sum.splits simp flip: j_def i_def)
    have i2: "NDIRECT + 1 < NDIRECT + 2" by simp
    note s1 = bmap_addr_step [OF ok i2 r1]
    note g1 = bmap_addr_grows [OF ok i2 r1]
    have live2: "cell_live d1 ip1 (Dbl j)" using j s1(1,2) by auto
    have r2': "bmap_cell d1 (cell_parent d1 ip1 (Dbl j)) (cell_index (Dbl j)) = Inr (S, d2)"
      using r2 s1(2) by auto
    have ib2: "in_block (Dbl j)" and ib3: "in_block (Leaf j i)" by simp_all
    note s2 = bmap_cell_step [OF s1(3) live2 ib2 r2']
    note g2 = bmap_cell_grows [OF s1(3) live2 ib2 r2']
    have live3: "cell_live d2 ip1 (Leaf j i)" using j il s1(1,2) s2(1,2) by auto
    have r3': "bmap_cell d2 (cell_parent d2 ip1 (Leaf j i)) (cell_index (Leaf j i)) = Inr (a, d')"
      using r3 s1(2) by auto
    note s3 = bmap_cell_step [OF s2(3) live3 ib3 r3']
    note g3 = bmap_cell_grows [OF s2(3) live3 ib3 r3']
    have g12: "grows d ip d2 ip1 ({Addr (NDIRECT + 1)} \<union> {Dbl j})"
      by (rule grows_trans [OF g1 g2])
    have g: "grows d ip d' ip1 {Addr (NDIRECT + 1), Dbl j, Leaf j i}"
      by (rule grows_mono [OF grows_trans [OF g12 g3]]) auto
    have "(Addr (NDIRECT + 1), D) \<in> tree d' ip1" "(Dbl j, S) \<in> tree d' ip1"
      "(Leaf j i, a) \<in> tree d' ip1"
      using s1(4) s2(4) s3(4) by simp_all
    then have "cell_live d' ip1 (Addr (NDIRECT + 1)) \<and> cell_val d' ip1 (Addr (NDIRECT + 1)) \<noteq> 0"
      "cell_live d' ip1 (Dbl j) \<and> cell_val d' ip1 (Dbl j) \<noteq> 0"
      "cell_live d' ip1 (Leaf j i) \<and> cell_val d' ip1 (Leaf j i) = a \<and> a \<noteq> 0"
      by (auto simp: tree_iff)
    then show ?thesis using g 3 unfolding e
      by (simp add: path_cells_def k' flip: j_def i_def)
  qed
  then show "grows d ip d' ip' (set (path_cells bn))" "a \<noteq> 0"
    "path_present d' ip' bn" "blk_of d' ip' bn = a"
    by (simp_all add: path_present_cells [OF bn] blk_of_cell)
qed

lemma balloc_scan_None:
  "balloc_scan blk sz b bi0 = None \<Longrightarrow> bi0 \<le> bi \<Longrightarrow> bi < BPB \<Longrightarrow> b + bi < sz
     \<Longrightarrow> \<not> bit_free blk bi"
proof (induction blk sz b bi0 rule: balloc_scan.induct)
  case (1 blk sz b bi0)
  from "1.prems" have c: "bi0 < BPB \<and> b + bi0 < sz" by simp
  show ?case
  proof (cases "bi = bi0")
    case True
    with "1.prems"(1) c show ?thesis
      by (simp add: balloc_scan.simps [of blk sz b bi0] split: if_splits)
  next
    case False
    with "1.prems" have le: "bi0 + 1 \<le> bi" by simp
    from "1.prems"(1) c have nf: "\<not> bit_free blk bi0"
      and r: "balloc_scan blk sz b (bi0 + 1) = None"
      by (simp_all add: balloc_scan.simps [of blk sz b bi0] split: if_splits)
    from "1.IH" [OF c nf r le "1.prems"(3,4)] show ?thesis .
  qed
qed

lemma balloc_from_total:
  assumes "BPB dvd b" "b \<le> x" "x < unat (sb_size (sb d))" "\<not> used d x"
    and "unat (sb_size (sb d)) \<le> 2 ^ 31"
    and "\<forall>h \<in> set held. safe d h"
  shows "\<exists>a d'. balloc_from held d b = Inr (a, d')"
  using assms
proof (induction held d b rule: balloc_from.induct)
  case (1 held d b)
  note dv = "1.prems"(1) and bx = "1.prems"(2) and xs = "1.prems"(3) and fx = "1.prems"(4)
    and sz = "1.prems"(5) and hs = "1.prems"(6)
  have lt: "b < unat (sb_size (sb d))" using bx xs by simp
  have bb: "BBLOCK b (sb d) \<in> bitmap_blocks d" using lt by (auto simp: bitmap_blocks_def)
  have nh: "BBLOCK b (sb d) \<notin> set held" using hs bb by (auto simp: safe_def)
  show ?case
  proof (cases "balloc_scan (blocks d (BBLOCK b (sb d))) (unat (sb_size (sb d))) b 0")
    case (Some bi)
    from balloc_scan_Some [OF Some] have bi: "bi < BPB" "b + bi < unat (sb_size (sb d))"
      "bit_free (blocks d (BBLOCK b (sb d))) bi" by simp_all
    have "\<not> used d (b + bi)"
      using bi by (simp add: used_def BBLOCK_add [OF dv bi(1)] mod_BPB_add [OF dv bi(1)])
    then have "b + bi \<notin> set held" using hs by (auto simp: safe_def)
    then show ?thesis using lt nh Some
      by (simp add: balloc_from.simps [of held d b] bzero_def Let_def)
  next
    case None
    have ge: "b + BPB \<le> x"
    proof (rule ccontr)
      assume "\<not> b + BPB \<le> x"
      then have xb: "x - b < BPB" using bx by simp
      have e: "b + (x - b) = x" using bx by simp
      from balloc_scan_None [OF None _ xb] xs e
      have "\<not> bit_free (blocks d (BBLOCK b (sb d))) (x - b)" by simp
      then have "used d x"
        using BBLOCK_add [OF dv xb, of "sb d"] mod_BPB_add [OF dv xb] by (simp add: used_def e)
      with fx show False by simp
    qed
    then have no: "\<not> b + BPB \<ge> 2 ^ 31" using xs sz by simp
    have "\<exists>a d'. balloc_from held d (b + BPB) = Inr (a, d')"
      by (rule "1.IH" [OF lt nh None no _ ge xs fx sz hs]) (simp add: dv)
    then show ?thesis using lt nh None no
      by (simp add: balloc_from.simps [of held d b])
  qed
qed

lemma free_blocks_iff: "x \<in> set (free_blocks d) \<longleftrightarrow> x < unat (sb_size (sb d)) \<and> \<not> used d x"
  by (auto simp: free_blocks_def)

lemma balloc_total:
  assumes "free_blocks d \<noteq> []" "unat (sb_size (sb d)) \<le> 2 ^ 31" "\<forall>h \<in> set held. safe d h"
  shows "\<exists>a d'. balloc held d = Inr (a, d')"
proof -
  from assms(1) obtain x where "x \<in> set (free_blocks d)" by (cases "free_blocks d") auto
  then have "x < unat (sb_size (sb d))" "\<not> used d x" by (simp_all add: free_blocks_iff)
  then show ?thesis unfolding balloc_def
    by (intro balloc_from_total [where x = x] assms) simp_all
qed

lemma free_blocks_balloc:
  assumes b: "balloc held d = Inr (a, d')" and ok: "bitmap_ok d"
  shows "Suc (length (free_blocks d')) = length (free_blocks d)"
proof -
  note be = balloc_effect [OF b ok]
  let ?n = "unat (sb_size (sb d))"
  have "free_blocks d' = filter (\<lambda>x. \<not> used d x \<and> x \<noteq> unat a) [0 ..< ?n]"
    unfolding free_blocks_def be(6) using be(10) by (intro filter_cong) auto
  also have "\<dots> = remove1 (unat a) (free_blocks d)"
    unfolding free_blocks_def
    by (simp add: distinct_remove1_removeAll removeAll_filter_not_eq) (metis)
  finally have "length (free_blocks d') = length (free_blocks d) - 1"
    using be(1,2) by (simp add: length_remove1 free_blocks_iff)
  moreover have "free_blocks d \<noteq> []" using be(1,2) free_blocks_iff [of "unat a" d] by auto
  ultimately show ?thesis by (cases "free_blocks d") simp_all
qed

lemma free_blocks_frame:
  assumes "sb d' = sb d" "\<And>bb. bb \<in> bitmap_blocks d \<Longrightarrow> blocks d' bb = blocks d bb"
  shows "free_blocks d' = free_blocks d"
proof (cases "0 < unat (sb_size (sb d))")
  case True
  from used_frame(2) [OF assms(1) True assms(2)] show ?thesis
    unfolding free_blocks_def assms(1) by (intro filter_cong) auto
next
  case False
  then show ?thesis by (simp add: free_blocks_def assms(1))
qed

lemma bmap_addr_total:
  assumes ok: "tree_ok d ip" and sz: "unat (sb_size (sb d)) \<le> 2 ^ 31"
    and fr: "free_blocks d \<noteq> []"
  shows "\<exists>a d' ip'. bmap_addr d ip i = Inr (a, d', ip')
           \<and> length (free_blocks d) \<le> Suc (length (free_blocks d'))"
proof (cases "i_addrs ip i = 0")
  case True
  have bo: "bitmap_ok d" using ok by (simp add: tree_ok_def)
  from balloc_total [OF fr sz, of "[]"] obtain a d1 where b: "balloc [] d = Inr (a, d1)" by auto
  from free_blocks_balloc [OF b bo] True b show ?thesis by (simp add: bmap_addr_def)
next
  case False
  then show ?thesis by (simp add: bmap_addr_def)
qed

lemma bmap_cell_total:
  assumes ok: "tree_ok d ip" and live: "cell_live d ip c" and nb: "in_block c"
    and sz: "unat (sb_size (sb d)) \<le> 2 ^ 31" and fr: "free_blocks d \<noteq> []"
  shows "\<exists>a d'. bmap_cell d (cell_parent d ip c) (cell_index c) = Inr (a, d')
           \<and> length (free_blocks d) \<le> Suc (length (free_blocks d'))"
proof (cases "rd32 (blocks d (cell_parent d ip c)) (cell_index c) = 0")
  case True
  let ?P = "cell_parent d ip c"
  have bo: "bitmap_ok d" using ok by (simp add: tree_ok_def)
  have sP: "safe d ?P" by (rule cell_parent_safe [OF ok live nb])
  from balloc_total [OF fr sz, of "[?P]"] sP obtain a d1 where
    b: "balloc [?P] d = Inr (a, d1)" by auto
  note be = balloc_effect [OF b bo]
  define d' where "d' = d1\<lparr>blocks := (blocks d1)(?P := wr32 (blocks d1 ?P) (cell_index c) a)\<rparr>"
  have "free_blocks d' = free_blocks d1"
  proof (rule free_blocks_frame)
    show "sb d' = sb d1" by (simp add: d'_def)
    show "blocks d' bb = blocks d1 bb" if "bb \<in> bitmap_blocks d1" for bb
      using that sP be(11) by (auto simp: d'_def safe_def)
  qed
  with free_blocks_balloc [OF b bo] True b show ?thesis
    by (simp add: bmap_cell_def d'_def)
next
  case False
  then show ?thesis by (simp add: bmap_cell_def)
qed

lemma bmap_total:
  assumes ok: "tree_ok d ip" and bn: "bn < MAXFILE"
    and sz: "unat (sb_size (sb d)) \<le> 2 ^ 31"
    and fr: "length (path_cells bn) \<le> length (free_blocks d)"
  shows "\<exists>a d' ip'. bmap d ip (of_nat bn) = Inr (a, d', ip')"
proof -
  have u: "unat (of_nat bn :: uint) = bn" by (rule unat_of_nat_bn [OF bn])
  consider "bn < NDIRECT" | "\<not> bn < NDIRECT" "bn < NDIRECT + NINDIRECT"
    | "\<not> bn < NDIRECT + NINDIRECT" by linarith
  then show ?thesis
  proof cases
    case 1
    with fr have "free_blocks d \<noteq> []" by (auto simp: path_cells_def)
    from bmap_addr_total [OF ok sz this, of bn] 1 show ?thesis by (auto simp: bmap_def u)
  next
    case 2
    define j where "j = bn - NDIRECT"
    have j: "j < NINDIRECT" using 2 by (simp add: j_def)
    from 2 fr have f0: "2 \<le> length (free_blocks d)" by (simp add: path_cells_def)
    then have "free_blocks d \<noteq> []" by auto
    from bmap_addr_total [OF ok sz this, of NDIRECT] obtain I d1 ip1 where
      r1: "bmap_addr d ip NDIRECT = Inr (I, d1, ip1)"
      and f1: "length (free_blocks d) \<le> Suc (length (free_blocks d1))" by blast
    have i: "NDIRECT < NDIRECT + 2" by simp
    note s1 = bmap_addr_step [OF ok i r1]
    have live: "cell_live d1 ip1 (Ind j)" using j s1(1,2) by auto
    have ib: "in_block (Ind j)" by simp
    have sz1: "unat (sb_size (sb d1)) \<le> 2 ^ 31" using sz s1(7) by simp
    have "free_blocks d1 \<noteq> []" using f0 f1 by auto
    from bmap_cell_total [OF s1(3) live ib sz1 this] s1(2) obtain a d2 where
      r2: "bmap_cell d1 (unat I) j = Inr (a, d2)" by auto
    from 2 j r1 r2 show ?thesis by (simp add: bmap_def u Let_def flip: j_def)
  next
    case 3
    define k where "k = bn - NDIRECT - NINDIRECT"
    define j where "j = k div NINDIRECT"
    define i where "i = k mod NINDIRECT"
    have j: "j < NINDIRECT" using dbl_index [OF bn 3] by (simp add: j_def k_def)
    have il: "i < NINDIRECT" using NINDIRECT_pos by (simp add: i_def)
    have k': "bn - NDIRECT - NINDIRECT = k" "bn - (NDIRECT + NINDIRECT) = k" by (simp_all add: k_def)
    from 3 have n1: "\<not> bn < NDIRECT" "\<not> bn - NDIRECT < NINDIRECT" by simp_all
    from 3 fr have f0: "3 \<le> length (free_blocks d)" by (simp add: path_cells_def Let_def)
    then have "free_blocks d \<noteq> []" by auto
    from bmap_addr_total [OF ok sz this, of "NDIRECT + 1"] obtain D d1 ip1 where
      r1: "bmap_addr d ip (NDIRECT + 1) = Inr (D, d1, ip1)"
      and f1: "length (free_blocks d) \<le> Suc (length (free_blocks d1))" by blast
    have i2: "NDIRECT + 1 < NDIRECT + 2" by simp
    note s1 = bmap_addr_step [OF ok i2 r1]
    have live2: "cell_live d1 ip1 (Dbl j)" using j s1(1,2) by auto
    have ib2: "in_block (Dbl j)" and ib3: "in_block (Leaf j i)" by simp_all
    have sz1: "unat (sb_size (sb d1)) \<le> 2 ^ 31" using sz s1(7) by simp
    have "free_blocks d1 \<noteq> []" using f0 f1 by auto
    from bmap_cell_total [OF s1(3) live2 ib2 sz1 this] s1(2) obtain S d2 where
      r2: "bmap_cell d1 (unat D) j = Inr (S, d2)"
      and f2: "length (free_blocks d1) \<le> Suc (length (free_blocks d2))" by auto
    have r2': "bmap_cell d1 (cell_parent d1 ip1 (Dbl j)) (cell_index (Dbl j)) = Inr (S, d2)"
      using r2 s1(2) by auto
    note s2 = bmap_cell_step [OF s1(3) live2 ib2 r2']
    have live3: "cell_live d2 ip1 (Leaf j i)" using j il s1(1,2) s2(1,2) by auto
    have sz2: "unat (sb_size (sb d2)) \<le> 2 ^ 31" using sz1 s2(7) by simp
    have "free_blocks d2 \<noteq> []" using f0 f1 f2 by auto
    from bmap_cell_total [OF s2(3) live3 ib3 sz2 this] s1(2) obtain a d3 where
      r3: "bmap_cell d2 (unat (rd32 (blocks d2 (unat D)) j)) i = Inr (a, d3)" by auto
    from n1 j r1 r2 r3 show ?thesis
      by (simp add: bmap_def u Let_def k' flip: j_def i_def)
  qed
qed

text \<open>
  C2. On an inode that satisfies the invariant, for \<open>bn < MAXFILE\<close>. \<^verbatim>\<open>bmap\<close> returns
  a block whenever the path of \<open>bn\<close> is filled already, and whenever the disk has no
  more than \<open>2\<^sup>3\<^sup>1\<close> blocks and as many free ones as the path of \<open>bn\<close> has cells: one
  for a direct index, two for an indirect one, three for a doubly-indirect one. When it
  returns, the block number is not 0 and is the one the layout of the specification
  gives for \<open>bn\<close> in the state it leaves, where every cell on the path of \<open>bn\<close> is
  filled. No cell that held a block number has changed; every cell that is new lies on
  the path of \<open>bn\<close> and holds a block that was free in the bitmap and is marked in use
  now, a block from \<^verbatim>\<open>balloc\<close>. If the path was filled already, nothing is allocated:
  disk and inode are unchanged. The invariant holds again.
\<close>

theorem bmap_layout:
  assumes "tree_ok d ip" "bn < MAXFILE"
  shows "(path_present d ip bn
          \<or> unat (sb_size (sb d)) \<le> 2 ^ 31 \<and> length (path_cells bn) \<le> length (free_blocks d)
         \<longrightarrow> (\<exists>a d' ip'. bmap d ip (of_nat bn) = Inr (a, d', ip')))
    \<and> (\<forall>a d' ip'. bmap d ip (of_nat bn) = Inr (a, d', ip') \<longrightarrow>
          a \<noteq> 0 \<and> blk_of d' ip' bn = a \<and> path_present d' ip' bn
          \<and> tree d ip \<subseteq> tree d' ip'
          \<and> (\<forall>c v. (c, v) \<in> tree d' ip' \<and> (c, v) \<notin> tree d ip
                \<longrightarrow> c \<in> set (path_cells bn) \<and> \<not> used d (unat v) \<and> used d' (unat v))
          \<and> (path_present d ip bn \<longrightarrow> a = blk_of d ip bn \<and> d' = d \<and> ip' = ip)
          \<and> tree_ok d' ip')"
proof (intro conjI allI impI)
  assume "path_present d ip bn
      \<or> unat (sb_size (sb d)) \<le> 2 ^ 31 \<and> length (path_cells bn) \<le> length (free_blocks d)"
  then show "\<exists>a d' ip'. bmap d ip (of_nat bn) = Inr (a, d', ip')"
  proof
    assume "path_present d ip bn"
    from bmap_present [OF assms(2) this] show ?thesis by simp
  next
    assume "unat (sb_size (sb d)) \<le> 2 ^ 31 \<and> length (path_cells bn) \<le> length (free_blocks d)"
    then show ?thesis using bmap_total [OF assms] by simp
  qed
next
  fix a d' ip'
  assume r: "bmap d ip (of_nat bn) = Inr (a, d', ip')"
  note g = bmap_grows [OF assms r]
  have ok': "tree_ok d' ip'" using g(1) by (simp add: grows_def)
  have new: "c \<in> set (path_cells bn) \<and> \<not> used d (unat v) \<and> used d' (unat v)"
    if "(c, v) \<in> tree d' ip' \<and> (c, v) \<notin> tree d ip" for c v
  proof -
    from that tree_ok_safe [OF ok'] have "used d' (unat v)" by (auto simp: safe_def)
    with that g(1) show ?thesis unfolding grows_def by blast
  qed
  have pres: "a = blk_of d ip bn \<and> d' = d \<and> ip' = ip" if "path_present d ip bn"
    using bmap_present [OF assms(2) that] r by simp
  show "a \<noteq> 0" "blk_of d' ip' bn = a" "path_present d' ip' bn" "tree_ok d' ip'"
    using g ok' by simp_all
  show "tree d ip \<subseteq> tree d' ip'" using g(1) unfolding grows_def by blast
  fix c v
  assume "(c, v) \<in> tree d' ip' \<and> (c, v) \<notin> tree d ip"
  from new [OF this] show "c \<in> set (path_cells bn)" "\<not> used d (unat v)" "used d' (unat v)"
    by simp_all
next
  fix a d' ip'
  assume r: "bmap d ip (of_nat bn) = Inr (a, d', ip')" and p: "path_present d ip bn"
  from bmap_present [OF assms(2) p] r show "a = blk_of d ip bn" "d' = d" "ip' = ip" by simp_all
qed

lemma ex_tree: "tree ex_disk ex_inode = {(Addr 0, 8), (Addr 1, 9)}"
proof -
  have "(c, v) \<in> tree ex_disk ex_inode \<longleftrightarrow> (c, v) = (Addr 0, 8) \<or> (c, v) = (Addr 1, 9)" for c v
    by (cases c) (auto simp: tree_iff ex_inode_def NDIRECT_def)
  then show ?thesis by auto
qed

lemma ex_bitmap_blocks: "bitmap_blocks ex_disk = {3}"
proof -
  have "BBLOCK b (sb ex_disk) = 3" if "b < 64" for b
    using that by (simp add: ex_disk_def ex_sb_def BBLOCK_def BPB_def BSIZE_def)
  moreover have "(0::nat) < unat (sb_size (sb ex_disk))" by (simp add: ex_disk_def ex_sb_def)
  moreover have "unat (sb_size (sb ex_disk)) = 64" by (simp add: ex_disk_def ex_sb_def)
  ultimately show ?thesis unfolding bitmap_blocks_def by (auto intro: exI [of _ 0])
qed

lemma ex_used: "used ex_disk 0" "used ex_disk 3" "used ex_disk 8" "used ex_disk 9"
  by (simp_all add: used_def bit_free_def bitmask_def ex_disk_def ex_sb_def BBLOCK_def BPB_def
      BSIZE_def zero_block_def)

lemma ex_tree_ok: "tree_ok ex_disk ex_inode"
  unfolding tree_ok_def bitmap_ok_def safe_def ex_tree ex_bitmap_blocks
  using ex_used by (auto simp: ex_disk_def ex_sb_def)

lemma ex_bmap_dbl:
  "\<exists>d' ip'. bmap ex_disk ex_inode (of_nat 267) = Inr (12, d', ip')"
  by (simp add: bmap_def bmap_addr_def bmap_cell_def balloc_def balloc_from.simps
      balloc_scan.simps bzero_def bit_free_def bitmask_def ex_disk_def ex_sb_def ex_inode_def
      BBLOCK_def BPB_def BSIZE_def NDIRECT_def NINDIRECT_def zero_block_def Let_def rd32_def
      wr32_def)

lemma ex_free_blocks: "free_blocks ex_disk = [10 ..< 64]"
  by (simp add: free_blocks_def used_def bit_free_def bitmask_def ex_disk_def ex_sb_def
      BBLOCK_def BPB_def BSIZE_def zero_block_def upt_conv_Cons)

theorem bmap_layout_witness:
  "tree_ok ex_disk ex_inode \<and> 267 < MAXFILE \<and> \<not> path_present ex_disk ex_inode 267
     \<and> unat (sb_size (sb ex_disk)) \<le> 2 ^ 31
     \<and> length (path_cells 267) \<le> length (free_blocks ex_disk)
     \<and> (\<exists>d' ip'. bmap ex_disk ex_inode (of_nat 267) = Inr (12, d', ip')
           \<and> blk_of d' ip' 267 = 12 \<and> path_present d' ip' 267
           \<and> i_addrs ip' (NDIRECT + 1) \<noteq> 0 \<and> (Leaf 0 0, 12) \<in> tree d' ip'
           \<and> (Addr 0, 8) \<in> tree d' ip' \<and> \<not> used ex_disk 12 \<and> used d' 12 \<and> tree_ok d' ip')"
proof -
  from ex_bmap_dbl obtain d' ip' where r: "bmap ex_disk ex_inode (of_nat 267) = Inr (12, d', ip')"
    by blast
  have lt: "267 < MAXFILE" by (simp add: MAXFILE_def NDIRECT_def NINDIRECT_def BSIZE_def)
  have np: "\<not> path_present ex_disk ex_inode 267"
    by (simp add: path_present_def ex_inode_def NDIRECT_def NINDIRECT_def BSIZE_def)
  have sz: "unat (sb_size (sb ex_disk)) \<le> 2 ^ 31" by (simp add: ex_disk_def ex_sb_def)
  have fr: "length (path_cells 267) \<le> length (free_blocks ex_disk)"
    by (simp add: ex_free_blocks path_cells_def)
  from bmap_layout [OF ex_tree_ok lt] r
  have f: "blk_of d' ip' 267 = 12" "path_present d' ip' 267" "tree_ok d' ip'"
    "tree ex_disk ex_inode \<subseteq> tree d' ip'"
    and n: "\<forall>c v. (c, v) \<in> tree d' ip' \<and> (c, v) \<notin> tree ex_disk ex_inode
          \<longrightarrow> c \<in> set (path_cells 267) \<and> \<not> used ex_disk (unat v) \<and> used d' (unat v)"
    by blast+
  have c: "\<not> (267::nat) < NDIRECT" "\<not> (267::nat) < NDIRECT + NINDIRECT"
    "(267 - NDIRECT - NINDIRECT) div NINDIRECT = 0" "(267 - NDIRECT - NINDIRECT) mod NINDIRECT = 0"
    by (simp_all add: NDIRECT_def NINDIRECT_def BSIZE_def)
  from f(1,2) have a: "i_addrs ip' (NDIRECT + 1) \<noteq> 0"
    "rd32 (blocks d' (unat (i_addrs ip' (NDIRECT + 1)))) 0 \<noteq> 0"
    "rd32 (blocks d' (unat (rd32 (blocks d' (unat (i_addrs ip' (NDIRECT + 1)))) 0))) 0 = 12"
    unfolding path_present_def blk_of_def Let_def using c by simp_all
  then have l: "(Leaf 0 0, 12) \<in> tree d' ip'" using NINDIRECT_pos by (simp add: tree_iff)
  have "(Leaf 0 0, 12) \<notin> tree ex_disk ex_inode" by (simp add: ex_tree)
  with n l have u: "\<not> used ex_disk (unat (12 :: uint))" "used d' (unat (12 :: uint))" by blast+
  have o: "(Addr 0, 8) \<in> tree d' ip'" using f(4) by (auto simp: ex_tree)
  from r f a(1) l o u lt np sz fr ex_tree_ok show ?thesis by auto
qed

lemma last_path_cells_inj:
  assumes "bn1 < MAXFILE" "bn2 < MAXFILE" "last (path_cells bn1) = last (path_cells bn2)"
  shows "bn1 = bn2"
proof -
  have k: "k1 = k2" if "k1 div NINDIRECT = k2 div NINDIRECT" "k1 mod NINDIRECT = k2 mod NINDIRECT"
    for k1 k2 :: nat using that by (metis div_mult_mod_eq)
  from assms(3) show ?thesis
    by (auto simp: path_cells_def split: if_splits dest!: k)
qed

lemma last_path_cells_data: "\<not> is_meta (last (path_cells bn))"
  by (simp add: path_cells_def)

lemma last_path_cells_in: "last (path_cells bn) \<in> set (path_cells bn)"
  by (simp add: path_cells_def)

lemma path_present_tree:
  assumes "bn < MAXFILE" "path_present d ip bn" "c \<in> set (path_cells bn)"
  shows "(c, cell_val d ip c) \<in> tree d ip"
  using assms by (simp add: path_present_cells tree_iff)

lemma tree_val:
  "(c, v) \<in> tree d ip \<Longrightarrow> cell_val d ip c = v \<and> cell_live d ip c \<and> cell_val d ip c \<noteq> 0"
  by (auto simp: tree_iff)

lemma present_grows:
  assumes g: "grows d ip d1 ip1 C" and bn: "bn < MAXFILE" and p: "path_present d ip bn"
  shows "path_present d1 ip1 bn" "blk_of d1 ip1 bn = blk_of d ip bn"
    "blocks d1 (unat (blk_of d ip bn)) = blocks d (unat (blk_of d ip bn))"
proof -
  have sub: "(c, cell_val d ip c) \<in> tree d1 ip1" if "c \<in> set (path_cells bn)" for c
    using path_present_tree [OF bn p that] g unfolding grows_def by blast
  show "path_present d1 ip1 bn"
    unfolding path_present_cells [OF bn] using sub by (auto dest: tree_val)
  show "blk_of d1 ip1 bn = blk_of d ip bn"
    unfolding blk_of_cell using tree_val [OF sub [OF last_path_cells_in]] by simp
  show "blocks d1 (unat (blk_of d ip bn)) = blocks d (unat (blk_of d ip bn))"
    unfolding blk_of_cell
    using path_present_tree [OF bn p last_path_cells_in] last_path_cells_data g
    unfolding grows_def by blast
qed

lemma data_write_frame:
  assumes ok: "tree_ok d ip" and bn: "bn < MAXFILE" and p: "path_present d ip bn"
    and d2: "d2 = d\<lparr>blocks := (blocks d)(unat (blk_of d ip bn) := X)\<rparr>"
  shows "tree d2 ip = tree d ip" "tree_ok d2 ip"
    "\<And>bn'. bn' < MAXFILE \<Longrightarrow> path_present d ip bn' \<Longrightarrow>
        path_present d2 ip bn' \<and> blk_of d2 ip bn' = blk_of d ip bn'
        \<and> (bn' \<noteq> bn \<longrightarrow> unat (blk_of d ip bn') \<noteq> unat (blk_of d ip bn))"
proof -
  let ?a = "blk_of d ip bn"
  have ta: "(last (path_cells bn), ?a) \<in> tree d ip"
    using path_present_tree [OF bn p last_path_cells_in] by (simp add: blk_of_cell)
  have sa: "safe d (unat ?a)" by (rule tree_ok_safe [OF ok ta])
  have meta: "blocks d2 (unat v) = blocks d (unat v)" if "(c, v) \<in> tree d ip" "is_meta c" for c v
  proof -
    from that last_path_cells_data [of bn] have "c \<noteq> last (path_cells bn)" by auto
    from tree_inj_ne [OF ok that(1) ta this] show ?thesis by (simp add: d2)
  qed
  show t: "tree d2 ip = tree d ip" by (rule tree_frame) (simp_all add: meta)
  have sb: "sb d2 = sb d" by (simp add: d2)
  have pos: "0 < unat (sb_size (sb d))" using sa by (simp add: safe_def)
  have bm: "blocks d2 bb = blocks d bb" if "bb \<in> bitmap_blocks d" for bb
    using that sa by (auto simp: d2 safe_def)
  have bo: "bitmap_ok d2" using used_frame(3) [OF sb pos bm] ok by (simp add: tree_ok_def)
  have sf: "safe d2 y" if "safe d y" for y by (rule used_frame(4) [OF sb pos bm that])
  show "tree_ok d2 ip"
    using ok bo sf unfolding tree_ok_def t by blast
  show "path_present d2 ip bn' \<and> blk_of d2 ip bn' = blk_of d ip bn'
        \<and> (bn' \<noteq> bn \<longrightarrow> unat (blk_of d ip bn') \<noteq> unat (blk_of d ip bn))"
    if bn': "bn' < MAXFILE" and p': "path_present d ip bn'" for bn'
  proof -
    have sub: "(c, cell_val d ip c) \<in> tree d2 ip" if "c \<in> set (path_cells bn')" for c
      using path_present_tree [OF bn' p' that] t by simp
    have 1: "path_present d2 ip bn'"
      unfolding path_present_cells [OF bn'] using sub by (auto dest: tree_val)
    have 2: "blk_of d2 ip bn' = blk_of d ip bn'"
      unfolding blk_of_cell using tree_val [OF sub [OF last_path_cells_in]] by simp
    have 3: "unat (blk_of d ip bn') \<noteq> unat ?a" if "bn' \<noteq> bn"
    proof -
      from that last_path_cells_inj [OF bn' bn] have ne: "last (path_cells bn') \<noteq> last (path_cells bn)"
        by blast
      have t': "(last (path_cells bn'), blk_of d ip bn') \<in> tree d ip"
        using path_present_tree [OF bn' p' last_path_cells_in] by (simp add: blk_of_cell)
      from tree_inj_ne [OF ok t' ta ne] show ?thesis .
    qed
    from 1 2 3 show ?thesis by blast
  qed
qed

lemma block_write_nth:
  "block_write blk p xs q = (if p \<le> q \<and> q < p + length xs then xs ! (q - p) else blk q)"
proof (induction xs arbitrary: blk p)
  case Nil
  then show ?case by auto
next
  case (Cons x xs)
  have "block_write blk p (x # xs) q = block_write (blk(p := x)) (p + 1) xs q" by simp
  also have "\<dots> = (if p + 1 \<le> q \<and> q < p + 1 + length xs then xs ! (q - (p + 1))
                     else (blk(p := x)) q)" by (rule Cons.IH)
  also have "\<dots> = (if p \<le> q \<and> q < p + length (x # xs) then (x # xs) ! (q - p) else blk q)"
    by (cases "q = p") (auto simp: nth_Cons' Suc_diff_le)
  finally show ?case .
qed

lemma mod_less_same_block:
  fixes pos off :: nat
  assumes "pos < off" "pos div B = off div B"
  shows "pos mod B < off mod B"
proof -
  have "pos = pos div B * B + pos mod B" "off = off div B * B + off mod B" by simp_all
  with assms show ?thesis by (metis add_less_cancel_left)
qed

lemma grows_apart:
  assumes g: "grows d ip d' ip' C" and ap: "inode_apart d ip"
  shows "inode_apart d' ip'"
proof -
  let ?B = "IBLOCK (unat (i_inum ip)) (sb d)"
  from g have sb: "sb d' = sb d" and sa: "same_but_addrs ip ip'" by (simp_all add: grows_def)
  have inum: "i_inum ip' = i_inum ip" by (rule same_but_addrs_fields [OF sa])
  from ap have sB: "safe d ?B" by (simp add: inode_apart_def)
  then have "safe d' ?B" using g by (simp add: grows_def)
  moreover have "unat v \<noteq> ?B" if t: "(c, v) \<in> tree d' ip'" for c v
  proof (cases "(c, v) \<in> tree d ip")
    case True
    with ap show ?thesis by (simp add: inode_apart_def)
  next
    case False
    with t g have "\<not> used d (unat v)" unfolding grows_def by blast
    with sB show ?thesis by (auto simp: safe_def)
  qed
  ultimately show ?thesis by (simp add: inode_apart_def sb inum)
qed

lemma data_write_apart:
  assumes ok: "tree_ok d ip" and bn: "bn < MAXFILE" and p: "path_present d ip bn"
    and d2: "d2 = d\<lparr>blocks := (blocks d)(unat (blk_of d ip bn) := X)\<rparr>"
    and ap: "inode_apart d ip"
  shows "inode_apart d2 ip"
proof -
  let ?a = "blk_of d ip bn"
  have ta: "(last (path_cells bn), ?a) \<in> tree d ip"
    using path_present_tree [OF bn p last_path_cells_in] by (simp add: blk_of_cell)
  have sa: "safe d (unat ?a)" by (rule tree_ok_safe [OF ok ta])
  have t: "tree d2 ip = tree d ip" by (rule data_write_frame(1) [OF ok bn p d2])
  have sb: "sb d2 = sb d" by (simp add: d2)
  have pos: "0 < unat (sb_size (sb d))" using sa by (simp add: safe_def)
  have bm: "blocks d2 bb = blocks d bb" if "bb \<in> bitmap_blocks d" for bb
    using that sa by (auto simp: d2 safe_def)
  have sf: "safe d2 y" if "safe d y" for y by (rule used_frame(4) [OF sb pos bm that])
  from ap sf show ?thesis by (simp add: inode_apart_def t sb)
qed

lemma holds_data_grows:
  assumes g: "grows d ip d1 ip1 C" and fit: "off0 + cnt \<le> MAXFILE * BSIZE"
    and H: "holds_data d ip off0 cnt data"
  shows "holds_data d1 ip1 off0 cnt data"
  unfolding holds_data_def
proof (intro allI impI)
  fix pos assume pr: "off0 \<le> pos \<and> pos < off0 + cnt"
  define bn where "bn = pos div BSIZE"
  have "pos < MAXFILE * BSIZE" using pr fit by simp
  then have bnlt: "bn < MAXFILE" by (simp add: bn_def less_mult_imp_div_less)
  from H pr have p0: "path_present d ip bn" and f0: "file_byte d ip pos = data ! (pos - off0)"
    by (simp_all add: holds_data_def bn_def)
  note pg = present_grows [OF g bnlt p0]
  have "file_byte d1 ip1 pos = file_byte d ip pos"
    using pg by (simp add: file_byte_def flip: bn_def)
  with pg(1) f0 show "path_present d1 ip1 (pos div BSIZE) \<and> file_byte d1 ip1 pos = data ! (pos - off0)"
    by (simp add: bn_def)
qed

text \<open>A write to the block of the inode leaves the file and the bitmap as they are.\<close>

lemma inode_block_write:
  assumes ok: "tree_ok d ip" and ap: "inode_apart d ip"
    and d': "d' = d\<lparr>blocks := (blocks d)(IBLOCK (unat (i_inum ip)) (sb d) := X)\<rparr>"
  shows "grows d ip d' ip {}" "inode_apart d' ip"
proof -
  let ?B = "IBLOCK (unat (i_inum ip)) (sb d)"
  from ap have sB: "safe d ?B" and nt: "\<And>c v. (c, v) \<in> tree d ip \<Longrightarrow> unat v \<noteq> ?B"
    by (simp_all add: inode_apart_def)
  have fr: "blocks d' (unat v) = blocks d (unat v)" if "(c, v) \<in> tree d ip" for c v
    using nt [OF that] by (simp add: d')
  have t: "tree d' ip = tree d ip" by (rule tree_frame) (simp_all add: fr)
  have sb: "sb d' = sb d" by (simp add: d')
  have pos: "0 < unat (sb_size (sb d))" using sB by (simp add: safe_def)
  have bm: "blocks d' bb = blocks d bb" if "bb \<in> bitmap_blocks d" for bb
    using that sB by (auto simp: d' safe_def)
  have bo: "bitmap_ok d'" using used_frame(3) [OF sb pos bm] ok by (simp add: tree_ok_def)
  have sf: "safe d' y" if "safe d y" for y by (rule used_frame(4) [OF sb pos bm that])
  have ok': "tree_ok d' ip" using ok bo sf unfolding tree_ok_def t by blast
  show "grows d ip d' ip {}"
    unfolding grows_def t using ok' sf sb fr by (auto simp: same_but_addrs_def)
  show "inode_apart d' ip" using sf [OF sB] nt by (simp add: inode_apart_def t sb)
qed

lemma iupdate_block:
  "\<exists>X. iupdate d ip = d\<lparr>blocks := (blocks d)(IBLOCK (unat (i_inum ip)) (sb d) := X)\<rparr>"
  unfolding iupdate_def Let_def by blast

lemma iupdate_grows:
  assumes "tree_ok d ip" "inode_apart d ip"
  shows "grows d ip (iupdate d ip) ip {}" "inode_apart (iupdate d ip) ip"
proof -
  from iupdate_block [of d ip] obtain X where
    e: "iupdate d ip = d\<lparr>blocks := (blocks d)(IBLOCK (unat (i_inum ip)) (sb d) := X)\<rparr>" by blast
  from inode_block_write [OF assms e]
  show "grows d ip (iupdate d ip) ip {}" "inode_apart (iupdate d ip) ip" by simp_all
qed

lemma inode_apart_cong:
  assumes "i_addrs ip' = i_addrs ip" "i_inum ip' = i_inum ip"
  shows "inode_apart d ip' = inode_apart d ip"
proof -
  have t: "tree d ip' = tree d ip" by (rule tree_frame) (simp_all add: assms)
  show ?thesis by (simp add: inode_apart_def t assms)
qed

lemma memmove_in_delivers:
  assumes "\<forall>i < length data. kmem (src + of_nat i) = data ! i"
  shows "delivers memmove_in kmem us src data"
  unfolding delivers_def
proof (intro allI impI)
  fix tot m assume a: "0 < m \<and> tot + m \<le> length data"
  have "map (\<lambda>i. kmem (src + of_nat tot + of_nat i)) [0 ..< m] = take m (drop tot data)"
  proof (rule nth_equalityI)
    show "length (map (\<lambda>i. kmem (src + of_nat tot + of_nat i)) [0 ..< m])
        = length (take m (drop tot data))" using a by auto
    fix i assume "i < length (map (\<lambda>i. kmem (src + of_nat tot + of_nat i)) [0 ..< m])"
    then have i: "i < m" by simp
    with a have "tot + i < length data" by simp
    with assms have "kmem (src + of_nat (tot + i)) = data ! (tot + i)" by blast
    with i a show "map (\<lambda>i. kmem (src + of_nat tot + of_nat i)) [0 ..< m] ! i
        = take m (drop tot data) ! i" by (simp add: add.assoc)
  qed
  then show "memmove_in kmem us (src + of_nat tot) m = (True, take m (drop tot data))"
    by (simp add: memmove_in_def)
qed

lemma writei_loop_data:
  assumes "tree_ok d ip" "inode_apart d ip" "tot \<le> N" "N = length data"
    and "off0 + N \<le> MAXFILE * BSIZE"
    and "delivers cpin mem us src0 data"
    and "holds_data d ip off0 tot data"
    and "src = src0 + of_nat tot" "off = off0 + tot"
    and "writei_loop cpin d ip mem us src off N tot = Inr (d', ip', offf)"
  shows "tree_ok d' ip' \<and> inode_apart d' ip' \<and> holds_data d' ip' off0 N data \<and> offf = off0 + N"
  using assms
proof (induction cpin d ip mem us src off N tot rule: writei_loop.induct)
  case (1 cpin d ip mem us src off N tot)
  note ok = "1.prems"(1) and ap = "1.prems"(2) and le = "1.prems"(3) and N = "1.prems"(4)
    and mx = "1.prems"(5) and dl = "1.prems"(6) and H = "1.prems"(7) and src = "1.prems"(8)
    and off = "1.prems"(9) and r = "1.prems"(10)
  show ?case
  proof (cases "tot < N")
    case False
    with le have e: "tot = N" by simp
    from False r have "d' = d" "ip' = ip" "offf = off"
      by (simp_all add: writei_loop.simps [of _ _ _ _ _ _ _ N tot])
    with ok ap H off e show ?thesis by simp
  next
    case True
    define bn where "bn = off div BSIZE"
    define m where "m = min (N - tot) (BSIZE - off mod BSIZE)"
    have mpos: "0 < m" "m \<le> N - tot" "off mod BSIZE + m \<le> BSIZE"
      using True by (simp_all add: m_def BSIZE_def)
    have "off < MAXFILE * BSIZE" using True mx off by simp
    then have bnlt: "bn < MAXFILE" by (simp add: bn_def less_mult_imp_div_less)
    from True r obtain a d1 ip1 where
      b: "bmap d ip (of_nat (off div BSIZE)) = Inr (a, d1, ip1)"
      by (auto simp: writei_loop.simps [of _ _ _ _ _ _ _ N tot] split: sum.splits)
    define bytes where "bytes = take m (drop tot data)"
    have c: "cpin mem us src m = (True, bytes)"
      using dl mpos True N unfolding delivers_def bytes_def src by simp
    define d2 where "d2 = d1\<lparr>blocks := (blocks d1)
       (unat a := block_write (blocks d1 (unat a)) (off mod BSIZE) (take m bytes))\<rparr>"
    have rec: "writei_loop cpin d2 ip1 mem us (src + of_nat m) (off + m) N (tot + m)
        = Inr (d', ip', offf)"
      using r True b c
      by (simp add: writei_loop.simps [of _ _ _ _ _ _ _ N tot] m_def d2_def Let_def)
    note g = bmap_grows [OF ok bnlt b [folded bn_def]]
    have ok1: "tree_ok d1 ip1" using g(1) by (simp add: grows_def)
    have ap1: "inode_apart d1 ip1" by (rule grows_apart [OF g(1) ap])
    have a: "a = blk_of d1 ip1 bn" using g(4) by simp
    have d2': "d2 = d1\<lparr>blocks := (blocks d1)(unat (blk_of d1 ip1 bn) :=
        block_write (blocks d1 (unat a)) (off mod BSIZE) (take m bytes))\<rparr>"
      by (simp add: d2_def a)
    note fr = data_write_frame [OF ok1 bnlt g(3) d2']
    have ap2: "inode_apart d2 ip1" by (rule data_write_apart [OF ok1 bnlt g(3) d2' ap1])
    have lbb: "length bytes = m" using mpos N by (simp add: bytes_def)
    have lb: "length (take m bytes) = m" using lbb by simp
    have by_nth: "take m bytes ! k = data ! (tot + k)" if "k < m" for k
      using that mpos N by (simp add: bytes_def)
    have H2: "holds_data d2 ip1 off0 (tot + m) data"
      unfolding holds_data_def
    proof (intro allI impI)
      fix pos assume pr: "off0 \<le> pos \<and> pos < off0 + (tot + m)"
      show "path_present d2 ip1 (pos div BSIZE) \<and> file_byte d2 ip1 pos = data ! (pos - off0)"
      proof (cases "pos < off")
        case old: True
        define bn' where "bn' = pos div BSIZE"
        have "pos < MAXFILE * BSIZE" using old \<open>off < MAXFILE * BSIZE\<close> by simp
        then have bn'lt: "bn' < MAXFILE" by (simp add: bn'_def less_mult_imp_div_less)
        from H pr old off have p0: "path_present d ip bn'"
          and f0: "file_byte d ip pos = data ! (pos - off0)"
          by (simp_all add: holds_data_def bn'_def)
        note pg = present_grows [OF g(1) bn'lt p0]
        note f = fr(3) [OF bn'lt pg(1)]
        have "blocks d2 (unat (blk_of d1 ip1 bn')) (pos mod BSIZE)
            = blocks d1 (unat (blk_of d1 ip1 bn')) (pos mod BSIZE)"
        proof (cases "bn' = bn")
          case True
          then have "pos mod BSIZE < off mod BSIZE"
            using old by (intro mod_less_same_block) (simp_all add: bn'_def bn_def)
          then show ?thesis by (simp add: d2_def a True block_write_nth)
        next
          case False
          with f have "unat (blk_of d1 ip1 bn') \<noteq> unat a" by (simp add: a)
          then show ?thesis by (simp add: d2_def)
        qed
        then have "file_byte d2 ip1 pos = file_byte d ip pos"
          using f pg by (simp add: file_byte_def flip: bn'_def)
        with f f0 show ?thesis by (simp add: bn'_def)
      next
        case new: False
        define k where "k = pos - off"
        have k: "k < m" "pos = off + k" using new pr off by (simp_all add: k_def)
        have w: "off mod BSIZE + k < BSIZE" using k mpos by simp
        have dv: "pos div BSIZE = bn" "pos mod BSIZE = off mod BSIZE + k"
          using div_mod_within [OF w] by (simp_all add: k bn_def)
        have "file_byte d2 ip1 pos = take m bytes ! k"
          using fr(3) [OF bnlt g(3)] k(1)
          by (simp add: file_byte_def dv d2_def a [symmetric] block_write_nth lb lbb)
        also have "\<dots> = data ! (pos - off0)" using by_nth [OF k(1)] k off by simp
        finally show ?thesis using fr(3) [OF bnlt g(3)] by (simp add: dv)
      qed
    qed
    have "tree_ok d' ip' \<and> inode_apart d' ip' \<and> holds_data d' ip' off0 N data \<and> offf = off0 + N"
    proof (rule "1.IH" [OF True b refl refl m_def refl c [symmetric] d2_def _ fr(2) ap2 _ N mx dl H2])
      show True by simp
      show "tot + m \<le> N" using mpos by simp
      show "src + of_nat m = src0 + of_nat (tot + m)" by (simp add: src)
      show "off + m = off0 + (tot + m)" by (simp add: off)
      show "writei_loop cpin d2 ip1 mem us (src + of_nat m) (off + m) N (tot + m)
        = Inr (d', ip', offf)" by (rule rec)
    qed
    then show ?thesis .
  qed
qed

lemma map_upt_split:
  fixes off :: nat
  assumes "m \<le> k"
  shows "take m (map f [off ..< off + k]) = map f [off ..< off + m]"
    "drop m (map f [off ..< off + k]) = map f [off + m ..< off + k]"
  using assms by (simp_all add: take_map drop_map take_upt drop_upt)

lemma readi_loop_chunks:
  assumes "tot \<le> n" "off + (n - tot) \<le> MAXFILE * BSIZE"
    and "\<forall>pos. off \<le> pos \<and> pos < off + (n - tot) \<longrightarrow> path_present d ip (pos div BSIZE)"
  shows "\<exists>tot'. readi_loop cpout d ip mem u dst off n tot =
     Inr (d, ip, chunks_out cpout mem u dst off (map (file_byte d ip) [off ..< off + (n - tot)]),
          tot')"
  using assms
proof (induction cpout d ip mem u dst off n tot rule: readi_loop.induct)
  case (1 cpout d ip mem u dst off n tot)
  show ?case
  proof (cases "tot < n")
    case False
    then have "readi_loop cpout d ip mem u dst off n tot = Inr (d, ip, mem, tot)"
      by (simp add: readi_loop.simps [of _ _ _ _ _ _ _ n tot])
    moreover from False have "chunks_out cpout mem u dst off
        (map (file_byte d ip) [off ..< off + (n - tot)]) = mem"
      by (simp add: chunks_out.simps [of cpout mem u dst off])
    ultimately show ?thesis by simp
  next
    case True
    define bn where "bn = off div BSIZE"
    define m where "m = min (n - tot) (BSIZE - off mod BSIZE)"
    have mpos: "0 < m" "m \<le> n - tot" "off mod BSIZE + m \<le> BSIZE"
      using True by (simp_all add: m_def BSIZE_def)
    have "off < MAXFILE * BSIZE" using True "1.prems" by simp
    then have bnlt: "bn < MAXFILE" by (simp add: bn_def less_mult_imp_div_less)
    have pp: "path_present d ip bn" using "1.prems"(3) True by (simp add: bn_def)
    have b: "bmap d ip (of_nat (off div BSIZE)) = Inr (blk_of d ip bn, d, ip)"
      using bmap_present [OF bnlt pp] by (simp add: bn_def)
    define data where "data = map (file_byte d ip) [off ..< off + (n - tot)]"
    define bytes where "bytes = block_bytes (blocks d (unat (blk_of d ip bn))) (off mod BSIZE) m"
    have ld: "length data = n - tot" "data \<noteq> []" using True by (auto simp: data_def)
    have bt: "bytes = take m data"
    proof (rule nth_equalityI)
      show "length bytes = length (take m data)" using mpos by (simp add: bytes_def block_bytes_def ld)
      fix x assume "x < length bytes"
      then have x: "x < m" by (simp add: bytes_def block_bytes_def)
      have w: "off mod BSIZE + x < BSIZE" using x mpos by simp
      from x mpos show "bytes ! x = take m data ! x"
        by (simp add: bytes_def nth_block_bytes data_def file_byte_def div_mod_within [OF w] bn_def)
    qed
    have "off + (n - tot) = off + m + (n - (tot + m))" using mpos by simp
    then have dr: "drop m data = map (file_byte d ip) [off + m ..< off + m + (n - (tot + m))]"
      unfolding data_def using map_upt_split(2) [OF mpos(2), of "file_byte d ip" off]
      by (simp add: add.assoc)
    obtain okc mem1 where c: "cpout mem u dst bytes = (okc, mem1)" by (cases "cpout mem u dst bytes")
    have ch: "chunks_out cpout mem u dst off data =
        (if okc then chunks_out cpout mem1 u (dst + of_nat m) (off + m) (drop m data) else mem1)"
      using ld c by (simp add: chunks_out.simps [of cpout mem u dst off data] m_def [symmetric]
          bt [symmetric] Let_def)
    show ?thesis
    proof (cases okc)
      case False
      with c True b have "readi_loop cpout d ip mem u dst off n tot = Inr (d, ip, mem1, tot)"
        by (simp add: readi_loop.simps [of _ _ _ _ _ _ _ n tot] bytes_def m_def Let_def)
      with ch False show ?thesis by (simp add: data_def)
    next
      case ok: True
      have IH: "\<exists>tot'. readi_loop cpout d ip mem1 u (dst + of_nat m) (off + m) n (tot + m) =
        Inr (d, ip, chunks_out cpout mem1 u (dst + of_nat m) (off + m)
               (map (file_byte d ip) [off + m ..< off + m + (n - (tot + m))]), tot')"
      proof (rule "1.IH" [OF True b refl refl m_def])
        show "(True, mem1) = cpout mem u dst
            (block_bytes (blocks d (unat (blk_of d ip bn))) (off mod BSIZE) m)"
          using c ok by (simp add: bytes_def)
        show "tot + m \<le> n" using mpos by simp
        show "off + m + (n - (tot + m)) \<le> MAXFILE * BSIZE" using "1.prems" mpos by simp
        show "\<forall>pos. off + m \<le> pos \<and> pos < off + m + (n - (tot + m)) \<longrightarrow>
              path_present d ip (pos div BSIZE)" using "1.prems"(3) mpos by simp
      qed simp
      have step: "readi_loop cpout d ip mem u dst off n tot =
          readi_loop cpout d ip mem1 u (dst + of_nat m) (off + m) n (tot + m)"
        using True b c ok
        by (simp add: readi_loop.simps [of _ _ _ _ _ _ _ n tot] bytes_def m_def Let_def)
      from IH step ch ok dr show ?thesis by (simp add: data_def)
    qed
  qed
qed

lemma blk_of_cong:
  "blocks d' = blocks d \<Longrightarrow> i_addrs ip' = i_addrs ip \<Longrightarrow> blk_of d' ip' bn = blk_of d ip bn"
  by (simp add: blk_of_def)

lemma path_present_cong:
  "blocks d' = blocks d \<Longrightarrow> i_addrs ip' = i_addrs ip
     \<Longrightarrow> path_present d' ip' bn = path_present d ip bn"
  by (simp add: path_present_def blk_of_def)

lemma holds_data_cong:
  "blocks d' = blocks d \<Longrightarrow> i_addrs ip' = i_addrs ip
     \<Longrightarrow> holds_data d' ip' off0 cnt data = holds_data d ip off0 cnt data"
  by (simp add: holds_data_def file_byte_def blk_of_cong [of d' d ip' ip]
      path_present_cong [of d' d ip' ip])

lemma tree_ok_cong:
  assumes "blocks d' = blocks d" "sb d' = sb d" "i_addrs ip' = i_addrs ip"
  shows "tree_ok d' ip' = tree_ok d ip"
proof -
  have t: "tree d' ip' = tree d ip" by (rule tree_frame) (simp_all add: assms)
  have b: "bitmap_blocks d' = bitmap_blocks d" by (simp add: bitmap_blocks_def assms)
  have u: "used d' = used d" by (rule ext) (simp add: used_def assms)
  show ?thesis by (simp add: tree_ok_def bitmap_ok_def safe_def t b u assms)
qed

lemma unat_diff_of_nat64:
  fixes dst :: uint64
  assumes "i < 2 ^ 64"
  shows "unat (dst + of_nat i - dst) = i"
  using assms by (simp add: unat_of_nat)

text \<open>
  C1. On an inode that satisfies the invariant and whose own block in the inode region is
  reserved, with \<open>off\<close> not past the size and \<open>off + n \<le> MAXFILE * BSIZE\<close>: when
  \<^verbatim>\<open>writei\<close> of \<open>n\<close> bytes returns and its source has handed over the bytes \<open>data\<close>,
  it returns \<open>n\<close>, and \<^verbatim>\<open>readi\<close> of \<open>n\<close> bytes at \<open>off\<close> on the disk and inode it
  leaves returns \<open>n\<close>, changes neither, and hands exactly the bytes of \<open>data\<close> to its
  destination, block by block; with kernel memory as the destination the bytes of
  \<open>data\<close> are at \<open>dst\<close> afterwards. Both invariants hold again.
\<close>

theorem write_read_round_trip:
  assumes ok: "tree_ok d ip" and ap: "inode_apart d ip"
    and pre: "off \<le> i_size ip"
    and fit: "unat off + unat n \<le> MAXFILE * BSIZE"
    and len: "length data = unat n"
    and src: "delivers cpin mem us src data"
    and w: "writei cpin d ip mem us src off n = Inr (r, d', ip')"
  shows "r = int (unat n)
    \<and> readi cpout d' ip' rmem ud dst off n
        = Inr (int (unat n), d', ip', chunks_out cpout rmem ud dst (unat off) data)
    \<and> (\<exists>mem'. readi memmove_out d' ip' kmem ud dst off n = Inr (int (unat n), d', ip', mem')
           \<and> (\<forall>i < unat n. mem' (dst + of_nat i) = data ! i))
    \<and> tree_ok d' ip' \<and> inode_apart d' ip'"
proof -
  let ?N = "unat n"
  from fit MAXFILE_BSIZE have small: "unat off + ?N < 2 ^ 31" by linarith
  then have nw: "\<not> (off + n < off)" and sum: "unat (off + n) = unat off + ?N"
    by (simp_all add: uint_add_wrap unat_add_lem [THEN iffD1])
  from small have sn: "sint n = int ?N" by (simp add: sint_small)
  have notrej: "\<not> (off > i_size ip \<or> off + n < off)" using pre nw by (simp add: not_less)
  from notrej fit sum have wdef: "writei cpin d ip mem us src off n =
      (case writei_loop cpin d ip mem us src (unat off) ?N 0 of
           Inl e \<Rightarrow> Inl e
         | Inr (d1, ip1, off1) \<Rightarrow>
             (if n > 0 then
                (let ip2 = (if (of_nat off1 :: uint) > i_size ip1
                            then ip1\<lparr>i_size := of_nat off1\<rparr> else ip1)
                 in Inr (sint n, iupdate d1 ip2, ip2))
              else Inr (sint n, d1, ip1)))"
    by (simp add: writei_def)
  with w obtain d1 ip1 off1 where
    l: "writei_loop cpin d ip mem us src (unat off) ?N 0 = Inr (d1, ip1, off1)"
    by (auto split: sum.splits)
  have H0: "holds_data d ip (unat off) 0 data" by (auto simp: holds_data_def)
  have "tree_ok d1 ip1 \<and> inode_apart d1 ip1 \<and> holds_data d1 ip1 (unat off) ?N data
      \<and> off1 = unat off + ?N"
    by (rule writei_loop_data [OF ok ap _ len [symmetric] fit src H0 _ _ l]) simp_all
  then have ok1: "tree_ok d1 ip1" and ap1: "inode_apart d1 ip1"
    and H1: "holds_data d1 ip1 (unat off) ?N data"
    and off1: "off1 = unat off + ?N" by simp_all
  have u1: "unat (of_nat off1 :: uint) = unat off + ?N" using small off1 sum by simp
  from w wdef l sn have r: "r = int ?N" by (simp add: Let_def split: if_splits)
  have res: "tree_ok d' ip' \<and> inode_apart d' ip' \<and> holds_data d' ip' (unat off) ?N data
      \<and> unat off + ?N \<le> unat (i_size ip')"
  proof (cases "n > 0")
    case True
    define ip2 where "ip2 = (if (of_nat off1 :: uint) > i_size ip1
                             then ip1\<lparr>i_size := of_nat off1\<rparr> else ip1)"
    from w wdef l True have e: "d' = iupdate d1 ip2" "ip' = ip2"
      by (auto simp: Let_def ip2_def)
    have c: "i_addrs ip2 = i_addrs ip1" "i_inum ip2 = i_inum ip1" by (simp_all add: ip2_def)
    have ok2: "tree_ok d1 ip2" using ok1 tree_ok_cong [of d1 d1 ip2 ip1] c by simp
    have ap2: "inode_apart d1 ip2" using ap1 inode_apart_cong [OF c] by simp
    have H2: "holds_data d1 ip2 (unat off) ?N data"
      using H1 holds_data_cong [of d1 d1 ip2 ip1] c by simp
    note g = iupdate_grows [OF ok2 ap2]
    have "tree_ok (iupdate d1 ip2) ip2" using g(1) by (simp add: grows_def)
    moreover have "holds_data (iupdate d1 ip2) ip2 (unat off) ?N data"
      by (rule holds_data_grows [OF g(1) fit H2])
    moreover have "unat off + ?N \<le> unat (i_size ip2)"
      using u1 by (auto simp: ip2_def word_less_nat_alt)
    ultimately show ?thesis using g(2) by (simp add: e)
  next
    case False
    then have z: "n = 0" by (simp add: word_greater_zero_iff)
    with w wdef l have "d' = d1" "ip' = ip1" by auto
    moreover from writei_loop_inode [OF l] have "i_size ip1 = i_size ip"
      by (rule same_but_addrs_fields)
    ultimately show ?thesis using z pre ok1 ap1 H1 by (simp add: word_le_nat_alt)
  qed
  then have ok': "tree_ok d' ip'" and ap': "inode_apart d' ip'"
    and H': "holds_data d' ip' (unat off) ?N data"
    and sz': "unat off + ?N \<le> unat (i_size ip')" by simp_all
  have le': "off \<le> i_size ip'" using sz' by (simp add: word_le_nat_alt)
  have nclamp: "\<not> off + n > i_size ip'" using sz' sum by (simp add: word_less_nat_alt)
  have c64: "?N < 2 ^ 64" using small by simp
  have pp: "\<forall>pos. unat off \<le> pos \<and> pos < unat off + (?N - 0) \<longrightarrow>
        path_present d' ip' (pos div BSIZE)"
    using H' by (simp add: holds_data_def)
  have cond: "(i_size ip' < off) = False" "(off + n < off) = False"
    "(i_size ip' < off + n) = False"
    using le' nw nclamp by (simp_all add: not_less)
  have fd: "map (file_byte d' ip') [unat off ..< unat off + (?N - 0)] = data"
  proof (rule nth_equalityI)
    show "length (map (file_byte d' ip') [unat off ..< unat off + (?N - 0)]) = length data"
      by (simp add: len)
    fix i assume "i < length (map (file_byte d' ip') [unat off ..< unat off + (?N - 0)])"
    then have "i < ?N" by simp
    with H' show "map (file_byte d' ip') [unat off ..< unat off + (?N - 0)] ! i = data ! i"
      by (simp add: holds_data_def)
  qed
  from readi_loop_chunks [OF _ _ pp, of cpout rmem ud dst] fit obtain tot' where
    "readi_loop cpout d' ip' rmem ud dst (unat off) ?N 0 =
       Inr (d', ip', chunks_out cpout rmem ud dst (unat off) data, tot')"
    unfolding fd by auto
  with cond sn have rd1: "readi cpout d' ip' rmem ud dst off n
      = Inr (int ?N, d', ip', chunks_out cpout rmem ud dst (unat off) data)"
    by (simp add: readi_def Let_def)
  define mem' where "mem' = (\<lambda>a. if unat (a - dst) < ?N - 0
                then file_byte d' ip' (unat off + unat (a - dst)) else kmem a)"
  have "readi_loop memmove_out d' ip' kmem ud dst (unat off) ?N 0 = Inr (d', ip', mem', ?N)"
    unfolding mem'_def using fit pp by (intro readi_loop_present [OF _ c64]) simp_all
  with cond sn have rd: "readi memmove_out d' ip' kmem ud dst off n
      = Inr (int ?N, d', ip', mem')"
    by (simp add: readi_def Let_def)
  have "mem' (dst + of_nat i) = data ! i" if "i < ?N" for i
  proof -
    have "i < 2 ^ 64" using that c64 by simp
    then have "unat (dst + of_nat i - dst) = i" by (rule unat_diff_of_nat64)
    with that H' show ?thesis by (simp add: mem'_def holds_data_def)
  qed
  with r rd rd1 ok' ap' show ?thesis by blast
qed

lemma ex_bmap1: "bmap ex_disk ex_inode 1 = Inr (9, ex_disk, ex_inode)"
  by (simp add: bmap_def bmap_addr_def ex_inode_def NDIRECT_def)

lemma ex_loop:
  "\<exists>d'. writei_loop memmove_in ex_disk ex_inode ex_kmem 0 0 2000 50 0
         = Inr (d', ex_inode\<lparr>i_addrs := (i_addrs ex_inode)(2 := 10)\<rparr>, 2050)"
  apply (subst writei_loop.simps)
  apply (simp add: ex_bmap1 BSIZE_def memmove_in_def Let_def del: upt_rec_numeral)
  apply (subst writei_loop.simps)
  apply (simp add: bmap_def bmap_addr_def balloc_def balloc_from.simps balloc_scan.simps
      bzero_def bit_free_def bitmask_def ex_disk_def ex_sb_def ex_inode_def BBLOCK_def BPB_def
      BSIZE_def NDIRECT_def zero_block_def Let_def memmove_in_def del: upt_rec_numeral)
  apply (subst writei_loop.simps)
  apply simp
  done

lemma ex_writei:
  "\<exists>d'. writei memmove_in ex_disk ex_inode ex_kmem 0 0 2000 50
         = Inr (50, d', ex_inode\<lparr>i_addrs := (i_addrs ex_inode)(2 := 10), i_size := 2050\<rparr>)"
proof -
  from ex_loop obtain d1 where
    l: "writei_loop memmove_in ex_disk ex_inode ex_kmem 0 0 2000 50 0
         = Inr (d1, ex_inode\<lparr>i_addrs := (i_addrs ex_inode)(2 := 10)\<rparr>, 2050)"
    by blast
  have "i_size ex_inode = 2000" by (simp add: ex_inode_def)
  then show ?thesis
    by (simp add: writei_def l MAXFILE_def BSIZE_def NDIRECT_def NINDIRECT_def Let_def)
qed

lemma ex_inode_apart: "inode_apart ex_disk ex_inode"
proof -
  have "IBLOCK (unat (i_inum ex_inode)) (sb ex_disk) = 2"
    by (simp add: IBLOCK_def IPB_def DINODE_SIZE_def BSIZE_def NDIRECT_def ex_inode_def
        ex_disk_def ex_sb_def)
  moreover have "used ex_disk 2"
    by (simp add: used_def bit_free_def bitmask_def ex_disk_def ex_sb_def BBLOCK_def BPB_def
        BSIZE_def zero_block_def)
  moreover have "(2 :: nat) < unat (sb_size (sb ex_disk))" by (simp add: ex_disk_def ex_sb_def)
  ultimately show ?thesis
    unfolding inode_apart_def safe_def ex_tree ex_bitmap_blocks by auto
qed

lemma ex_chunks: "chunks_out copy_once 0 0 0 2000 ex_data = 48"
  apply (subst chunks_out.simps)
  apply (simp add: ex_data_def BSIZE_def copy_once_def Let_def del: upt_rec_numeral)
  apply (subst chunks_out.simps)
  apply (simp add: BSIZE_def copy_once_def Let_def del: upt_rec_numeral)
  done

theorem write_read_round_trip_witness:
  "tree_ok ex_disk ex_inode \<and> inode_apart ex_disk ex_inode
     \<and> delivers memmove_in ex_kmem 0 0 ex_data \<and> i_addrs ex_inode 2 = 0
     \<and> (\<exists>d' ip' mem'. writei memmove_in ex_disk ex_inode ex_kmem 0 0 2000 50 = Inr (50, d', ip')
           \<and> i_addrs ip' 2 = 10 \<and> i_size ip' = 2050
           \<and> readi memmove_out d' ip' (\<lambda>_. 0) 0 0 2000 50 = Inr (50, d', ip', mem')
           \<and> map (\<lambda>i. mem' (of_nat i)) [0 ..< 50] = ex_data
           \<and> readi copy_once d' ip' 0 0 0 2000 50 = Inr (50, d', ip', 48))"
proof -
  from ex_writei obtain d' ip' where
    w: "writei memmove_in ex_disk ex_inode ex_kmem 0 0 2000 50 = Inr (50, d', ip')"
    and ip': "ip' = ex_inode\<lparr>i_addrs := (i_addrs ex_inode)(2 := 10), i_size := 2050\<rparr>" by blast
  have pre: "(2000 :: uint) \<le> i_size ex_inode" by (simp add: ex_inode_def)
  have fit: "unat (2000 :: uint) + unat (50 :: uint) \<le> MAXFILE * BSIZE"
    by (simp add: MAXFILE_def BSIZE_def NDIRECT_def NINDIRECT_def)
  have len: "length ex_data = unat (50 :: uint)" by (simp add: ex_data_def)
  have "\<forall>i < length ex_data. ex_kmem (0 + of_nat i) = ex_data ! i"
  proof (intro allI impI)
    fix i :: nat assume i: "i < length ex_data"
    then have "i < 50" by (simp add: ex_data_def)
    then have "unat (of_nat i :: uint64) = i" by (simp add: unat_of_nat)
    with i show "ex_kmem (0 + of_nat i) = ex_data ! i" by (simp add: ex_kmem_def)
  qed
  then have src: "delivers memmove_in ex_kmem 0 0 ex_data" by (rule memmove_in_delivers)
  note t = write_read_round_trip [OF ex_tree_ok ex_inode_apart pre fit len src w]
  have "readi copy_once d' ip' 0 0 0 2000 50
      = Inr (int (unat (50 :: uint)), d', ip', chunks_out copy_once 0 0 0 (unat (2000 :: uint)) ex_data)"
    by (rule t [THEN conjunct2, THEN conjunct1])
  then have rc: "readi copy_once d' ip' 0 0 0 2000 50 = Inr (50, d', ip', 48)"
    by (simp add: ex_chunks)
  have "\<exists>mem'. readi memmove_out d' ip' (\<lambda>_. 0) 0 0 2000 50
        = Inr (int (unat (50 :: uint)), d', ip', mem')
      \<and> (\<forall>i < unat (50 :: uint). mem' (0 + of_nat i) = ex_data ! i)"
    by (rule t [of copy_once 0 0 0 "\<lambda>_. 0", THEN conjunct2, THEN conjunct2, THEN conjunct1])
  then obtain mem' where
    rd0: "readi memmove_out d' ip' (\<lambda>_. 0) 0 0 2000 50 = Inr (int (unat (50 :: uint)), d', ip', mem')"
    and m0: "\<forall>i < unat (50 :: uint). mem' (0 + of_nat i) = ex_data ! i" by blast
  from rd0 have rd: "readi memmove_out d' ip' (\<lambda>_. 0) 0 0 2000 50 = Inr (50, d', ip', mem')"
    by simp
  have m: "mem' (of_nat i) = ex_data ! i" if "i < 50" for i
    using m0 that by simp
  have "map (\<lambda>i. mem' (of_nat i)) [0 ..< 50] = ex_data"
  proof (rule nth_equalityI)
    show "length (map (\<lambda>i. mem' (of_nat i)) [0 ..< 50]) = length ex_data"
      by (simp add: ex_data_def)
    fix i assume "i < length (map (\<lambda>i. mem' (of_nat i)) [0 ..< 50])"
    then have "i < 50" by simp
    then show "map (\<lambda>i. mem' (of_nat i)) [0 ..< 50] ! i = ex_data ! i" by (simp add: m)
  qed
  moreover have "i_addrs ex_inode 2 = 0" by (simp add: ex_inode_def)
  moreover have "i_addrs ip' 2 = 10" "i_size ip' = 2050" by (simp_all add: ip')
  ultimately show ?thesis using w rd rc src ex_tree_ok ex_inode_apart by blast
qed

end
